theory Spec2Isabelle
  imports Main "HOL-Library.Sublist"
begin

section \<open>Pi camera stream server: \<open>camera_server.py\<close>\<close>

text \<open>
  The development follows the one source file. Python values are modelled as follows.
  \<^item> \<open>bytes\<close> objects (JPEG frames, response bodies) are lists of \<open>char\<close>, Isabelle's
    8-bit characters.
  \<^item> The value of a request header is a \<open>str\<close> that the HTTP library has decoded as
    ISO-8859-1, so each of its code points is below 256: it is a \<open>string\<close> as well.
  \<^item> The decoded credential text, \<open>USERNAME\<close> and \<open>PASSWORD\<close> are \<open>str\<close> objects with
    arbitrary code points: lists of natural numbers.
  \<^item> An exception is a value of \<open>py_error\<close> on the left of a sum.
\<close>

type_synonym bytes = "char list"
type_synonym ustr = "nat list"

datatype py_error = ValueError | DecodeError | TypeError | OSError

subsection \<open>Library operations used by \<open>check_auth\<close>\<close>

text \<open>\<open>s.split(sep, 1)\<close>: at most one split, at the first occurrence of \<open>sep\<close>.\<close>

definition split1 :: "'a \<Rightarrow> 'a list \<Rightarrow> 'a list list" where
  "split1 sep s =
     (if sep \<in> set s
      then [takeWhile (\<lambda>c. c \<noteq> sep) s, tl (dropWhile (\<lambda>c. c \<noteq> sep) s)]
      else [s])"

text \<open>The assignment \<open>a, b = xs\<close> raises \<open>ValueError\<close> unless \<open>xs\<close> has two items.\<close>

definition unpack2 :: "'a list \<Rightarrow> py_error + ('a \<times> 'a)" where
  "unpack2 xs = (case xs of [a, b] \<Rightarrow> Inr (a, b) | _ \<Rightarrow> Inl ValueError)"

text \<open>
  \<open>str.lower()\<close> on code points below 256: the ASCII capitals and the capitals of the
  Latin-1 block (\<open>0xC0\<close> to \<open>0xDE\<close> without the multiplication sign \<open>0xD7\<close>) move up
  by 32, every other character stays.
\<close>

definition lower_char :: "char \<Rightarrow> char" where
  "lower_char c =
     (let n = (of_char c :: nat)
      in if (65 \<le> n \<and> n \<le> 90) \<or> (192 \<le> n \<and> n \<le> 222 \<and> n \<noteq> 215)
         then char_of (n + 32) else c)"

definition lower :: "string \<Rightarrow> string" where
  "lower s = map lower_char s"

definition colon :: nat where
  "colon = 58"

text \<open>The code points of a text written with 8-bit characters.\<close>

definition ustr_of :: "string \<Rightarrow> ustr" where
  "ustr_of s = map of_char s"

subsection \<open>Configuration\<close>

text \<open>
  \<open>USERNAME\<close> and \<open>PASSWORD\<close> are read from the environment once, at import time
  (lines 22 and 23).
\<close>

record config =
  USERNAME :: ustr
  PASSWORD :: ustr

text \<open>
  \<open>base64.b64decode(credentials).decode('utf-8')\<close> belongs to the standard library.
  \<open>check_auth\<close> takes it as a parameter: a function from the credential text to the decoded
  text, or to the exception raised by either of the two calls. The decoder of the library
  is \<open>py_decoder\<close>, in the section on the standard decoder.
\<close>

type_synonym decoder = "string \<Rightarrow> py_error + ustr"

subsection \<open>\<open>AuthHandler.check_auth\<close> (lines 37 to 51)\<close>

text \<open>The body of the \<open>try\<close> block, lines 43 to 49.\<close>

definition auth_try :: "config \<Rightarrow> decoder \<Rightarrow> string \<Rightarrow> py_error + bool" where
  "auth_try cfg dec auth_header =
     (case unpack2 (split1 CHR '' '' auth_header) of
        Inl e \<Rightarrow> Inl e
      | Inr (auth_type, credentials) \<Rightarrow>
          if lower auth_type \<noteq> ''basic'' then Inr False
          else (case dec credentials of
                  Inl e \<Rightarrow> Inl e
                | Inr decoded \<Rightarrow>
                    (case unpack2 (split1 colon decoded) of
                       Inl e \<Rightarrow> Inl e
                     | Inr (username, password) \<Rightarrow>
                         Inr (username = USERNAME cfg \<and> password = PASSWORD cfg))))"

text \<open>
  \<open>self.headers.get('Authorization')\<close> is \<open>None\<close> or a \<open>str\<close>; \<open>not auth_header\<close> holds
  for \<open>None\<close> and for the empty text. The bare \<open>except\<close> turns every exception into
  \<open>False\<close>.
\<close>

definition check_auth :: "config \<Rightarrow> decoder \<Rightarrow> string option \<Rightarrow> bool" where
  "check_auth cfg dec hdr =
     (case hdr of
        None \<Rightarrow> False
      | Some auth_header \<Rightarrow>
          if auth_header = [] then False
          else (case auth_try cfg dec auth_header of Inl e \<Rightarrow> False | Inr b \<Rightarrow> b))"


subsection \<open>Calls on the client connection\<close>

text \<open>
  A handler talks to its client through the request handler's methods. The model records
  the calls a handler has completed, oldest first, with their arguments.
\<close>

datatype event =
    SendResponse nat
  | SendHeader string string
  | EndHeaders
  | WfileWrite bytes
  | SendError nat

definition CRLF :: bytes where
  "CRLF = [CHR 0x0D, CHR 0x0A]"

text \<open>\<open>str(n)\<close> for a length: the decimal digits, most significant first.\<close>

definition digit :: "nat \<Rightarrow> char" where
  "digit d = char_of (48 + d)"

function str :: "nat \<Rightarrow> string" where
  "str n = (if n < 10 then [digit n] else str (n div 10) @ [digit (n mod 10)])"
  by pat_completeness auto
termination
  by (relation "measure (\<lambda>n. n)") auto

declare str.simps [simp del]

text \<open>The number a decimal text denotes, as a reader of the header computes it.\<close>

definition digit_val :: "char \<Rightarrow> nat" where
  "digit_val c = of_char c - 48"

definition decimal :: "string \<Rightarrow> nat" where
  "decimal ds = foldl (\<lambda>a c. 10 * a + digit_val c) 0 ds"

text \<open>\<open>send_auth_request\<close>, lines 53 to 58.\<close>

definition send_auth_request :: "event list" where
  \<open>send_auth_request =
     [SendResponse 401,
      SendHeader ''WWW-Authenticate'' ''Basic realm="Pi Camera"'',
      SendHeader ''Content-Type'' ''text/html'',
      EndHeaders,
      WfileWrite ''<h1>401 - Authentication Required</h1>'']\<close>

text \<open>
  The landing page, lines 66 to 226. The text of the page is a parameter: \<open>html\<close> stands
  for \<open>html.encode()\<close>.
\<close>

definition index_page :: "bytes \<Rightarrow> event list" where
  "index_page html =
     [SendResponse 200, SendHeader ''Content-Type'' ''text/html'', EndHeaders, WfileWrite html]"

text \<open>The head of the stream response, lines 229 to 234.\<close>

definition stream_head :: "event list" where
  "stream_head =
     [SendResponse 200,
      SendHeader ''Content-Type'' ''multipart/x-mixed-replace; boundary=FRAME'',
      SendHeader ''Cache-Control'' ''no-cache, no-store, must-revalidate'',
      SendHeader ''Pragma'' ''no-cache'',
      SendHeader ''Expires'' ''0'',
      EndHeaders]"

text \<open>
  One pass through lines 242 to 247 for a frame of type \<open>bytes\<close>: the calls made when
  none of them raises.
\<close>

definition part_events :: "bytes \<Rightarrow> event list" where
  "part_events frame =
     [WfileWrite (''--FRAME'' @ CRLF),
      SendHeader ''Content-Type'' ''image/jpeg'',
      SendHeader ''Content-Length'' (str (length frame)),
      EndHeaders,
      WfileWrite frame,
      WfileWrite CRLF]"

text \<open>
  A statement of a handler is a call on the connection, which may raise \<open>OSError\<close>, or a
  statement that raises by itself. The local variable \<open>frame\<close> holds \<open>None\<close> or a \<open>bytes\<close>
  object; \<open>len(None)\<close> on line 244 raises \<open>TypeError\<close> after lines 242 and 243 have
  run.
\<close>

datatype stmt = Call event | Raise py_error

definition part_stmts :: "bytes option \<Rightarrow> stmt list" where
  "part_stmts frame =
     (case frame of
        Some f \<Rightarrow> map Call (part_events f)
      | None \<Rightarrow>
          [Call (WfileWrite (''--FRAME'' @ CRLF)),
           Call (SendHeader ''Content-Type'' ''image/jpeg''),
           Raise TypeError])"

subsection \<open>Threads and their control points\<close>

text \<open>
  The control point of a request handler.
  \<^item> \<open>Fresh\<close>: no request has arrived.
  \<^item> \<open>Reply st\<close>: a response outside the stream loop is being sent, \<open>st\<close> are the
    statements still to run; \<open>do_GET\<close> returns after them.
  \<^item> \<open>StreamHead st\<close>: lines 229 to 234, outside the \<open>try\<close>.
  \<^item> \<open>LoopTop\<close>: line 238, before the lock of \<open>output.condition\<close> is taken.
  \<^item> \<open>InWith\<close>: the lock is held, \<open>wait()\<close> on line 239 has not been called.
  \<^item> \<open>Waiting\<close>: inside \<open>wait()\<close>, the lock released, not notified.
  \<^item> \<open>Notified\<close>: inside \<open>wait()\<close>, notified, the lock not yet taken again.
  \<^item> \<open>Woken\<close>: \<open>wait()\<close> has returned with the lock held, before line 240.
  \<^item> \<open>Copied\<close>: line 240 has run, the \<open>with\<close> block has not been left.
  \<^item> \<open>Part st\<close>: lines 242 to 247, inside the \<open>try\<close>, \<open>st\<close> still to run.
  \<^item> \<open>Done\<close>: \<open>do_GET\<close> has returned without an exception.
  \<^item> \<open>Closed\<close>: the \<open>except\<close> clause of line 248 has run and \<open>do_GET\<close> has returned.
  \<^item> \<open>Raised e\<close>: the exception \<open>e\<close> has left \<open>do_GET\<close>.
\<close>

datatype pc =
    Fresh
  | Reply "stmt list"
  | StreamHead "stmt list"
  | LoopTop
  | InWith
  | Waiting
  | Notified
  | Woken
  | Copied
  | Part "stmt list"
  | Done
  | Closed
  | Raised py_error

text \<open>
  A handler: its control point, its local variable \<open>frame\<close>, and the calls completed on its
  connection. Two history fields serve the statements about versions, which the source does
  not store: the version of a frame is the number of assignments to \<open>output.frame\<close> on
  line 33 that have happened when it is read. \<open>seen\<close> lists, for every run of line 240,
  that version and the value read; \<open>wait_from\<close> is the version at the last call of
  \<open>wait()\<close>.
\<close>

record session =
  pc :: pc
  frame_var :: "bytes option"
  conn :: "event list"
  seen :: "(nat \<times> bytes option) list"
  wait_from :: nat

text \<open>
  The one thread that calls \<open>StreamingOutput.write\<close>: idle, inside the \<open>with\<close> block
  before line 33 with \<open>buf\<close>, after line 33, or after line 34.
\<close>

datatype writer = WIdle | WLocked bytes | WSet | WNotified

datatype thread = Producer | Handler nat

text \<open>
  The state of the process: \<open>output.frame\<close>, the owner of the lock of
  \<open>output.condition\<close>, the writer, the handlers, and as history the buffers assigned to
  \<open>output.frame\<close> so far.
\<close>

record system =
  frame :: "bytes option"
  lock :: "thread option"
  writer :: writer
  sess :: "nat \<Rightarrow> session"
  published :: "bytes list"

definition version :: "system \<Rightarrow> nat" where
  "version s = length (published s)"

definition init_session :: session where
  "init_session = \<lparr>pc = Fresh, frame_var = None, conn = [], seen = [], wait_from = 0\<rparr>"

definition init :: system where
  "init = \<lparr>frame = None, lock = None, writer = WIdle, sess = (\<lambda>i. init_session),
           published = []\<rparr>"

text \<open>What the server is started with: the credentials, the decoder and the landing page.\<close>

record env =
  env_cfg :: config
  env_dec :: decoder
  env_html :: bytes

subsection \<open>\<open>AuthHandler.do_GET\<close> up to the stream loop (lines 60 to 234 and 251 to 252)\<close>

text \<open>
  The result is the control point the handler is at after the authentication and the
  routing, with the statements it is about to run.
\<close>

definition do_GET :: "env \<Rightarrow> string option \<Rightarrow> string \<Rightarrow> pc" where
  "do_GET e hdr path =
     (if \<not> check_auth (env_cfg e) (env_dec e) hdr then Reply (map Call send_auth_request)
      else if path = ''/'' \<or> path = ''/index.html'' then Reply (map Call (index_page (env_html e)))
      else if path = ''/stream.mjpg'' then StreamHead (map Call stream_head)
      else Reply [Call (SendError 404)])"

subsection \<open>Steps\<close>

text \<open>
  The threads are the one that calls \<open>write\<close> and the request handlers, numbered. The
  scheduler and the environment are an input: a list of actions, each one step of one
  thread. An action whose thread is not at the matching control point, or that needs the
  lock while another thread holds it, leaves the state as it is. Every interleaving is a
  schedule; \<open>StreamingServer\<close> derives from \<open>HTTPServer\<close> alone and runs its handlers
  one after the other, which is among them. \<open>wait()\<close> is as the library documents it: it
  releases the lock, blocks until a \<open>notify_all()\<close> on the same condition, takes the lock
  again and returns.
  \<^item> \<open>Write buf\<close>: the writer enters \<open>write(buf)\<close> and takes the lock (line 32).
  \<^item> \<open>SetFrame\<close>: line 33. \<open>NotifyAll\<close>: line 34. \<open>WriteExit\<close>: the lock is released.
  \<^item> \<open>Request i hdr path\<close>: handler \<open>i\<close> receives a GET for \<open>path\<close> whose
    \<open>Authorization\<close> header is \<open>hdr\<close>.
  \<^item> \<open>Send i fails\<close>: handler \<open>i\<close> runs its next statement; \<open>fails\<close> says whether a
    call on the connection raises \<open>OSError\<close>.
  \<^item> \<open>Enter i\<close>: line 238. \<open>Wait i\<close>: \<open>wait()\<close> is called and releases the lock.
    \<open>Wakeup i\<close>: a notified handler takes the lock again and \<open>wait()\<close> returns.
    \<open>Copy i\<close>: line 240. \<open>Leave i\<close>: the \<open>with\<close> block is left.
\<close>

datatype action =
    Write bytes
  | SetFrame
  | NotifyAll
  | WriteExit
  | Request nat "string option" string
  | Send nat bool
  | Enter nat
  | Wait nat
  | Wakeup nat
  | Copy nat
  | Leave nat

definition upd :: "nat \<Rightarrow> (session \<Rightarrow> session) \<Rightarrow> system \<Rightarrow> system" where
  "upd i f s = s\<lparr>sess := (sess s)(i := f (sess s i))\<rparr>"

text \<open>
  \<open>notify_all()\<close> wakes every thread that is waiting on the condition at that moment.
\<close>

definition notify_all :: "system \<Rightarrow> system" where
  "notify_all s =
     s\<lparr>sess := (\<lambda>j. if pc (sess s j) = Waiting then (sess s j)\<lparr>pc := Notified\<rparr> else sess s j)\<rparr>"

text \<open>
  A statement that raises: outside the \<open>try\<close> the exception leaves \<open>do_GET\<close>; inside, the
  \<open>except\<close> clause of line 248 catches it and \<open>do_GET\<close> returns.
\<close>

definition raise_in :: "pc \<Rightarrow> py_error \<Rightarrow> pc" where
  "raise_in p e = (case p of Part st \<Rightarrow> Closed | _ \<Rightarrow> Raised e)"

text \<open>Where control is once the statements \<open>st\<close> of the current block remain.\<close>

definition continue :: "pc \<Rightarrow> stmt list \<Rightarrow> pc" where
  "continue p st =
     (case p of
        Reply _ \<Rightarrow> (if st = [] then Done else Reply st)
      | StreamHead _ \<Rightarrow> (if st = [] then LoopTop else StreamHead st)
      | Part _ \<Rightarrow> (if st = [] then LoopTop else Part st)
      | _ \<Rightarrow> p)"

definition pending :: "pc \<Rightarrow> stmt list" where
  "pending p = (case p of Reply st \<Rightarrow> st | StreamHead st \<Rightarrow> st | Part st \<Rightarrow> st | _ \<Rightarrow> [])"

definition send :: "bool \<Rightarrow> session \<Rightarrow> session" where
  "send fails h =
     (case pending (pc h) of
        [] \<Rightarrow> h
      | Raise e # st \<Rightarrow> h\<lparr>pc := raise_in (pc h) e\<rparr>
      | Call ev # st \<Rightarrow>
          if fails then h\<lparr>pc := raise_in (pc h) OSError\<rparr>
          else h\<lparr>pc := continue (pc h) st, conn := conn h @ [ev]\<rparr>)"

definition step :: "env \<Rightarrow> action \<Rightarrow> system \<Rightarrow> system" where
  "step e a s =
     (case a of
        Write buf \<Rightarrow>
          if writer s = WIdle \<and> lock s = None
          then s\<lparr>lock := Some Producer, writer := WLocked buf\<rparr> else s
      | SetFrame \<Rightarrow>
          (case writer s of
             WLocked buf \<Rightarrow>
               s\<lparr>frame := Some buf, published := published s @ [buf], writer := WSet\<rparr>
           | _ \<Rightarrow> s)
      | NotifyAll \<Rightarrow>
          if writer s = WSet then (notify_all s)\<lparr>writer := WNotified\<rparr> else s
      | WriteExit \<Rightarrow>
          if writer s = WNotified then s\<lparr>lock := None, writer := WIdle\<rparr> else s
      | Request i hdr path \<Rightarrow>
          if pc (sess s i) = Fresh then upd i (\<lambda>h. h\<lparr>pc := do_GET e hdr path\<rparr>) s else s
      | Send i fails \<Rightarrow> upd i (send fails) s
      | Enter i \<Rightarrow>
          if pc (sess s i) = LoopTop \<and> lock s = None
          then (upd i (\<lambda>h. h\<lparr>pc := InWith\<rparr>) s)\<lparr>lock := Some (Handler i)\<rparr> else s
      | Wait i \<Rightarrow>
          if pc (sess s i) = InWith
          then (upd i (\<lambda>h. h\<lparr>pc := Waiting, wait_from := version s\<rparr>) s)\<lparr>lock := None\<rparr>
          else s
      | Wakeup i \<Rightarrow>
          if pc (sess s i) = Notified \<and> lock s = None
          then (upd i (\<lambda>h. h\<lparr>pc := Woken\<rparr>) s)\<lparr>lock := Some (Handler i)\<rparr> else s
      | Copy i \<Rightarrow>
          if pc (sess s i) = Woken
          then upd i (\<lambda>h. h\<lparr>pc := Copied, frame_var := frame s,
                              seen := seen h @ [(version s, frame s)]\<rparr>) s
          else s
      | Leave i \<Rightarrow>
          if pc (sess s i) = Copied
          then (upd i (\<lambda>h. h\<lparr>pc := Part (part_stmts (frame_var h))\<rparr>) s)
                 \<lparr>lock := None\<rparr>
          else s)"

definition run :: "env \<Rightarrow> action list \<Rightarrow> system \<Rightarrow> system" where
  "run e acts s = foldl (\<lambda>t a. step e a t) s acts"

text \<open>One complete call of \<open>StreamingOutput.write(buf)\<close>.\<close>

definition publish :: "bytes \<Rightarrow> action list" where
  "publish buf = [Write buf, SetFrame, NotifyAll, WriteExit]"

subsection \<open>Sample values\<close>

text \<open>
  A decoder for the examples: it knows the Base64 texts of a few credential texts, as
  \<open>base64.b64encode\<close> gives them, and rejects every other text, among them
  \<open>YWRtaW46c2VjcmV\<close>, which the library rejects for its padding. On the texts it knows
  it agrees with the standard decoder, which accepts more.
\<close>

definition sample_table :: "(string \<times> string) list" where
  "sample_table =
     [(''YWRtaW46c2VjcmV0'', ''admin:secret''),
      (''QWRtaW46c2VjcmV0'', ''Admin:secret''),
      (''YWRtaW46U2VjcmV0'', ''admin:Secret''),
      (''YWRtaW4='', ''admin''),
      (''YWRtaW46YTpiOmM='', ''admin:a:b:c''),
      (''YWQ6bWluOnNlY3JldA=='', ''ad:min:secret'')]"

definition sample_decoder :: decoder where
  "sample_decoder s =
     (case map_of sample_table s of Some d \<Rightarrow> Inr (ustr_of d) | None \<Rightarrow> Inl DecodeError)"

definition sample_config :: config where
  "sample_config = \<lparr>USERNAME = ustr_of ''admin'', PASSWORD = ustr_of ''secret''\<rparr>"

definition colon_password_config :: config where
  "colon_password_config = \<lparr>USERNAME = ustr_of ''admin'', PASSWORD = ustr_of ''a:b:c''\<rparr>"

definition colon_username_config :: config where
  "colon_username_config = \<lparr>USERNAME = ustr_of ''ad:min'', PASSWORD = ustr_of ''secret''\<rparr>"

definition sample_env :: env where
  "sample_env = \<lparr>env_cfg = sample_config, env_dec = sample_decoder, env_html = ''<html></html>''\<rparr>"

subsection \<open>Start of the process (lines 258 to 281)\<close>

text \<open>
  The calls of the main block, in the order of the source. \<open>StreamingServer\<close> is the
  constructor call of line 271: it creates the server socket, binds it and starts to
  listen. \<open>print n\<close> is the \<open>print\<close> call of line \<open>n\<close>.
\<close>

datatype boot_call =
    Picamera2
  | create_video_configuration
  | configure
  | StreamingOutput
  | start_recording
  | StreamingServer
  | print nat
  | serve_forever
  | stop_recording
  | stop

text \<open>
  \<open>serve_forever()\<close> does not return; it ends with \<open>KeyboardInterrupt\<close> or with another
  exception.
\<close>

datatype serve_end = KeyboardInterrupt | OtherException

text \<open>The outside world of the main block: which calls raise, and how serving ends.\<close>

record boot_env =
  raises :: "boot_call \<Rightarrow> bool"
  serve_end :: serve_end

text \<open>
  A sequence of calls runs until one of them raises: the result is the calls that have
  returned and whether one has raised.
\<close>

fun attempt :: "boot_env \<Rightarrow> boot_call list \<Rightarrow> boot_call list \<times> bool" where
  "attempt w [] = ([], False)"
| "attempt w (c # cs) =
     (if raises w c then ([], True)
      else (case attempt w cs of (made, raised) \<Rightarrow> (c # made, raised)))"

text \<open>
  The result is the list of the calls that have been made and have not raised (for
  \<open>serve_forever\<close>: that has been entered), oldest first, and the exit status of the
  process. The first five calls are outside the \<open>try\<close>: an exception in one of them ends
  the script at once. Inside the \<open>try\<close> come the constructor of the server, four \<open>print\<close>
  calls and \<open>serve_forever()\<close>; only \<open>KeyboardInterrupt\<close> is caught (line 277), and the
  clause that catches it prints. The \<open>finally\<close> clause of line 279 runs once the \<open>try\<close>
  has been entered: \<open>stop_recording()\<close>, then \<open>stop()\<close>. The interpreter ends a script with
  status 1 when an exception reaches the top level and with status 0 otherwise.
\<close>

definition main :: "boot_env \<Rightarrow> boot_call list \<times> nat" where
  "main w =
     (case attempt w [Picamera2, create_video_configuration, configure, StreamingOutput,
                      start_recording] of
        (before, True) \<Rightarrow> (before, 1)
      | (before, False) \<Rightarrow>
          let (body, uncaught) =
                (case attempt w [StreamingServer, print 272, print 273, print 274, print 275] of
                   (made, True) \<Rightarrow> (made, True)
                 | (made, False) \<Rightarrow>
                     (case serve_end w of
                        OtherException \<Rightarrow> (made @ [serve_forever], True)
                      | KeyboardInterrupt \<Rightarrow>
                          (case attempt w [print 278] of
                             (shown, raised) \<Rightarrow> (made @ serve_forever # shown, raised))));
              (final, failed) = attempt w [stop_recording, stop]
          in (before @ body @ final, if uncaught \<or> failed then 1 else 0))"

definition all_well :: boot_env where
  "all_well = \<lparr>raises = (\<lambda>c. False), serve_end = KeyboardInterrupt\<rparr>"

definition camera_fails :: boot_env where
  "camera_fails = \<lparr>raises = (\<lambda>c. c = start_recording), serve_end = KeyboardInterrupt\<rparr>"

definition print_fails :: boot_env where
  "print_fails = \<lparr>raises = (\<lambda>c. c = print 272), serve_end = KeyboardInterrupt\<rparr>"

section \<open>The standard decoder\<close>

text \<open>
  The decoder that line 47 calls is \<open>base64.b64decode(credentials).decode('utf-8')\<close> of the
  standard library (CPython 3.11). \<open>b64decode\<close> is called without \<open>validate\<close>, so it
  runs \<open>binascii.a2b_base64\<close> in its lenient mode. The definitions below follow that
  routine. Decoded bytes are numbers below 256.
\<close>

text \<open>The value of a character of the standard alphabet \<open>A-Z a-z 0-9 + /\<close>.\<close>

definition b64_value :: "char \<Rightarrow> nat option" where
  "b64_value c =
     (let n = (of_char c :: nat)
      in if 65 \<le> n \<and> n \<le> 90 then Some (n - 65)
         else if 97 \<le> n \<and> n \<le> 122 then Some (n - 71)
         else if 48 \<le> n \<and> n \<le> 57 then Some (n + 4)
         else if n = 43 then Some 62
         else if n = 47 then Some 63
         else None)"

text \<open>One more item in front of a result; an exception discards what was produced.\<close>

fun emit :: "nat \<Rightarrow> py_error + nat list \<Rightarrow> py_error + nat list" where
  "emit b (Inl e) = Inl e"
| "emit b (Inr bs) = Inr (b # bs)"

text \<open>
  The loop of \<open>a2b_base64\<close> over the remaining input, with its three variables:
  \<open>quad_pos\<close>, the number of characters of the current group of four already consumed;
  \<open>leftchar\<close>, the bits of the group not yet written; and \<open>pads\<close>, the number of \<open>=\<close>
  counted since the last character of the alphabet.
  \<^item> A \<open>=\<close> counts as padding only when \<open>quad_pos\<close> is 2 or 3; when the padding completes
    the group, decoding stops there and the rest of the input is not read. Any other
    \<open>=\<close> is skipped.
  \<^item> A character outside the alphabet is skipped.
  \<^item> A character of the alphabet contributes six bits; each group of four gives three
    bytes. The shifts of the C code are written as multiplications and divisions.
  \<^item> At the end of the input, a group that is not complete raises \<open>binascii.Error\<close>,
    here \<open>DecodeError\<close>.
\<close>

fun a2b_base64 :: "nat \<Rightarrow> nat \<Rightarrow> nat \<Rightarrow> string \<Rightarrow> py_error + nat list" where
  "a2b_base64 quad_pos leftchar pads [] = (if quad_pos \<noteq> 0 then Inl DecodeError else Inr [])"
| "a2b_base64 quad_pos leftchar pads (c # cs) =
     (if c = CHR ''='' then
        (if 2 \<le> quad_pos \<and> 4 \<le> quad_pos + (pads + 1) then Inr []
         else a2b_base64 quad_pos leftchar (if 2 \<le> quad_pos then pads + 1 else pads) cs)
      else
        (case b64_value c of
           None \<Rightarrow> a2b_base64 quad_pos leftchar pads cs
         | Some v \<Rightarrow>
             if quad_pos = 0 then a2b_base64 1 v 0 cs
             else if quad_pos = 1
               then emit (leftchar * 4 + v div 16) (a2b_base64 2 (v mod 16) 0 cs)
             else if quad_pos = 2
               then emit (leftchar * 16 + v div 4) (a2b_base64 3 (v mod 4) 0 cs)
             else emit (leftchar * 64 + v) (a2b_base64 0 0 0 cs)))"

definition is_ascii :: "char \<Rightarrow> bool" where
  "is_ascii c \<longleftrightarrow> (of_char c :: nat) < 128"

text \<open>
  \<open>base64.b64decode(s)\<close> for a \<open>str\<close>: \<open>s.encode('ascii')\<close> raises \<open>ValueError\<close> on a
  character that is not ASCII; then the loop runs from its initial state.
\<close>

definition b64decode :: "string \<Rightarrow> py_error + nat list" where
  "b64decode s = (if list_all is_ascii s then a2b_base64 0 0 0 s else Inl ValueError)"

text \<open>
  \<open>bytes.decode('utf-8')\<close>: sequences of one to four bytes, without overlong forms,
  surrogates or code points above \<open>0x10FFFF\<close>; anything else raises \<open>UnicodeDecodeError\<close>,
  here \<open>DecodeError\<close>.
\<close>

definition continuation :: "nat \<Rightarrow> bool" where
  "continuation b \<longleftrightarrow> 128 \<le> b \<and> b < 192"

fun utf8_decode :: "nat list \<Rightarrow> py_error + ustr" where
  "utf8_decode [] = Inr []"
| "utf8_decode (b # bs) =
     (if b < 128 then emit b (utf8_decode bs)
      else if 194 \<le> b \<and> b < 224 then
        (case bs of
           c1 # r \<Rightarrow>
             if continuation c1
             then emit ((b - 192) * 64 + (c1 - 128)) (utf8_decode r)
             else Inl DecodeError
         | _ \<Rightarrow> Inl DecodeError)
      else if 224 \<le> b \<and> b < 240 then
        (case bs of
           c1 # c2 # r \<Rightarrow>
             if continuation c1 \<and> continuation c2
                \<and> (if b = 224 then 160 \<le> c1 else True)
                \<and> (if b = 237 then c1 < 160 else True)
             then emit ((b - 224) * 4096 + (c1 - 128) * 64 + (c2 - 128)) (utf8_decode r)
             else Inl DecodeError
         | _ \<Rightarrow> Inl DecodeError)
      else if 240 \<le> b \<and> b < 245 then
        (case bs of
           c1 # c2 # c3 # r \<Rightarrow>
             if continuation c1 \<and> continuation c2 \<and> continuation c3
                \<and> (if b = 240 then 144 \<le> c1 else True)
                \<and> (if b = 244 then c1 < 144 else True)
             then emit ((b - 240) * 262144 + (c1 - 128) * 4096 + (c2 - 128) * 64 + (c3 - 128))
                    (utf8_decode r)
             else Inl DecodeError
         | _ \<Rightarrow> Inl DecodeError)
      else Inl DecodeError)"

definition py_decoder :: decoder where
  "py_decoder s = (case b64decode s of Inl e \<Rightarrow> Inl e | Inr bs \<Rightarrow> utf8_decode bs)"

text \<open>The characters that \<open>a2b_base64\<close> does not skip.\<close>

definition b64_symbol :: "char \<Rightarrow> bool" where
  "b64_symbol c \<longleftrightarrow> c = CHR ''='' \<or> b64_value c \<noteq> None"

text \<open>
  Valid Base64 in the sense of RFC 4648: characters of the alphabet, then no padding, one
  \<open>=\<close> or two, to a length that is a multiple of four.
\<close>

definition valid_base64 :: "string \<Rightarrow> bool" where
  "valid_base64 s \<longleftrightarrow>
     (let body = takeWhile (\<lambda>c. c \<noteq> CHR ''='') s;
          pad = dropWhile (\<lambda>c. c \<noteq> CHR ''='') s
      in length s mod 4 = 0 \<and> list_all (\<lambda>c. b64_value c \<noteq> None) body
         \<and> (pad = [] \<or> pad = ''='' \<or> pad = ''==''))"

section \<open>Invariants of the frame slot and of the handlers\<close>

text \<open>Control points at which a handler owns the lock.\<close>

fun holds :: "pc \<Rightarrow> bool" where
  "holds InWith = True"
| "holds Woken = True"
| "holds Copied = True"
| "holds _ = False"

text \<open>The lock is owned by the thread that is inside a \<open>with\<close> block.\<close>

definition lock_inv :: "system \<Rightarrow> bool" where
  "lock_inv s \<longleftrightarrow>
     (writer s \<noteq> WIdle \<longrightarrow> lock s = Some Producer) \<and>
     (\<forall>j. holds (pc (sess s j)) \<longrightarrow> lock s = Some (Handler j))"

text \<open>\<open>output.frame\<close> is the buffer of the last assignment.\<close>

definition slot_inv :: "system \<Rightarrow> bool" where
  "slot_inv s \<longleftrightarrow> frame s = (if published s = [] then None else Some (last (published s)))"

text \<open>Control points inside \<open>wait()\<close> or just after it, and those after a notification.\<close>

fun in_wait :: "pc \<Rightarrow> bool" where
  "in_wait Waiting = True"
| "in_wait Notified = True"
| "in_wait Woken = True"
| "in_wait _ = False"

fun notified :: "pc \<Rightarrow> bool" where
  "notified Notified = True"
| "notified Woken = True"
| "notified _ = False"

text \<open>An entry of \<open>seen\<close> names a version that exists, with the buffer of that version.\<close>

definition entry_ok :: "system \<Rightarrow> nat \<times> bytes option \<Rightarrow> bool" where
  "entry_ok s x \<longleftrightarrow>
     0 < fst x \<and> fst x \<le> version s \<and> snd x = Some (published s ! (fst x - 1))"

definition ver_inv :: "system \<Rightarrow> session \<Rightarrow> bool" where
  "ver_inv s h \<longleftrightarrow>
     (\<forall>x \<in> set (seen h). entry_ok s x) \<and>
     (in_wait (pc h) \<longrightarrow>
        (\<forall>x \<in> set (seen h). fst x \<le> wait_from h) \<and> wait_from h \<le> version s) \<and>
     (notified (pc h) \<longrightarrow> wait_from h < version s) \<and>
     (pc h = Waiting \<and> writer s = WSet \<longrightarrow> wait_from h < version s)"

definition increasing :: "session \<Rightarrow> bool" where
  "increasing h \<longleftrightarrow> sorted_wrt (<) (map fst (seen h))"

text \<open>The buffers among the values a handler has read, and the events of a statement list.\<close>

fun frames :: "(nat \<times> bytes option) list \<Rightarrow> bytes list" where
  "frames [] = []"
| "frames ((v, Some b) # xs) = b # frames xs"
| "frames ((v, None) # xs) = frames xs"

fun calls :: "stmt list \<Rightarrow> event list" where
  "calls [] = []"
| "calls (Call ev # st) = ev # calls st"
| "calls (Raise x # st) = calls st"

definition sent_parts :: "bytes list \<Rightarrow> event list" where
  "sent_parts fs = concat (map part_events fs)"

text \<open>The complete responses outside the stream.\<close>

definition replies :: "env \<Rightarrow> event list set" where
  "replies e = {send_auth_request, index_page (env_html e), [SendError 404]}"

text \<open>
  What a handler has sent, by control point: a stream handler has sent the head and one
  part for each buffer it has read, up to the part in progress.
\<close>

definition trace_inv :: "env \<Rightarrow> session \<Rightarrow> bool" where
  "trace_inv e h =
     (case pc h of
        Fresh \<Rightarrow> conn h = [] \<and> seen h = []
      | Reply st \<Rightarrow> seen h = [] \<and> st = map Call (calls st) \<and> conn h @ calls st \<in> replies e
      | StreamHead st \<Rightarrow>
          seen h = [] \<and> st = map Call (calls st) \<and> conn h @ calls st = stream_head
      | Copied \<Rightarrow>
          seen h \<noteq> [] \<and> frame_var h = snd (last (seen h)) \<and>
          conn h = stream_head @ sent_parts (frames (butlast (seen h)))
      | Part st \<Rightarrow>
          st = map Call (calls st) \<and>
          conn h @ calls st = stream_head @ sent_parts (frames (seen h))
      | Done \<Rightarrow> seen h = [] \<and> conn h \<in> replies e
      | Closed \<Rightarrow> prefix (conn h) (stream_head @ sent_parts (frames (seen h)))
      | Raised x \<Rightarrow>
          seen h = [] \<and> (\<exists>r \<in> insert stream_head (replies e). prefix (conn h) r)
      | _ \<Rightarrow> conn h = stream_head @ sent_parts (frames (seen h)))"

definition inv :: "env \<Rightarrow> system \<Rightarrow> bool" where
  "inv e s \<longleftrightarrow>
     lock_inv s \<and> slot_inv s \<and>
     (\<forall>j. ver_inv s (sess s j) \<and> increasing (sess s j) \<and> trace_inv e (sess s j))"

text \<open>Control points after which a handler does nothing more.\<close>

fun terminal :: "pc \<Rightarrow> bool" where
  "terminal Done = True"
| "terminal Closed = True"
| "terminal (Raised x) = True"
| "terminal _ = False"

text \<open>Control points of a handler that answers outside the stream.\<close>

fun off_stream :: "pc \<Rightarrow> bool" where
  "off_stream (Reply st) = True"
| "off_stream Done = True"
| "off_stream (Raised x) = True"
| "off_stream _ = False"

text \<open>
  A handler that answers with the events \<open>evs\<close> on a connection that held \<open>c0\<close>: it has
  sent the first \<open>k\<close> of them and is about to send the rest, or has returned, or a call
  has raised.
\<close>

definition replying :: "event list \<Rightarrow> event list \<Rightarrow> session \<Rightarrow> bool" where
  "replying c0 evs h \<longleftrightarrow>
     (\<exists>k \<le> length evs. conn h = c0 @ take k evs \<and>
        ((k < length evs \<and> pc h = Reply (map Call (drop k evs)))
         \<or> (k = length evs \<and> pc h = Done)
         \<or> pc h = Raised OSError))"

subsection \<open>Sample schedules\<close>

text \<open>
  Handler \<open>i\<close> receives a valid request for the stream and sends the head of the response;
  a handler enters the loop body and waits; a woken handler reads the frame and sends one
  part.
\<close>

definition open_stream :: "nat \<Rightarrow> action list" where
  "open_stream i =
     Request i (Some ''Basic YWRtaW46c2VjcmV0'') ''/stream.mjpg'' # replicate 6 (Send i False)"

definition await :: "nat \<Rightarrow> action list" where
  "await i = [Enter i, Wait i]"

definition deliver :: "nat \<Rightarrow> action list" where
  "deliver i = [Wakeup i, Copy i, Leave i] @ replicate 6 (Send i False)"

text \<open>
  Handler 0 streams frame \<open>A\<close>, waits again, and is woken after the frames \<open>B\<close> and \<open>C\<close>
  have been published.
\<close>

definition two_rounds :: "action list" where
  "two_rounds =
     open_stream 0 @ await 0 @ publish ''A'' @ deliver 0 @ await 0 @
     publish ''B'' @ publish ''C'' @ [Wakeup 0]"

text \<open>Handler 0 waits for its first frame.\<close>

definition first_wait :: "action list" where
  "first_wait = open_stream 0 @ await 0"

text \<open>Handler 0 is sending its first part when the connection breaks.\<close>

definition sending_part :: "action list" where
  "sending_part =
     open_stream 0 @ await 0 @ publish ''A'' @ [Wakeup 0, Copy 0, Leave 0, Send 0 False]"

definition broken_pipe :: "action list" where
  "broken_pipe = sending_part @ [Send 0 True]"

text \<open>
  Handler 0 streams frame \<open>A\<close>; the frames \<open>B\<close> and \<open>C\<close> are published while it sends the
  part, before it calls \<open>wait()\<close> again.
\<close>

definition late_wait :: "action list" where
  "late_wait =
     open_stream 0 @ await 0 @ publish ''A'' @ [Wakeup 0, Copy 0, Leave 0] @
     publish ''B'' @ publish ''C'' @ replicate 6 (Send 0 False) @ await 0"

section \<open>Credential validation\<close>

lemma unpack2_split1:
  "unpack2 (split1 sep s) =
     (if sep \<in> set s
      then Inr (takeWhile (\<lambda>c. c \<noteq> sep) s, tl (dropWhile (\<lambda>c. c \<noteq> sep) s))
      else Inl ValueError)"
  by (cases s) (simp_all add: unpack2_def split1_def)

lemma unpack2_split1_append:
  "sep \<notin> set a \<Longrightarrow> unpack2 (split1 sep (a @ sep # b)) = Inr (a, b)"
proof -
  assume a: "sep \<notin> set a"
  then have "takeWhile (\<lambda>c. c \<noteq> sep) (a @ sep # b) = a"
    by (induction a) auto
  moreover from a have "dropWhile (\<lambda>c. c \<noteq> sep) (a @ sep # b) = sep # b"
    by (induction a) auto
  ultimately show ?thesis by (simp add: unpack2_split1)
qed

lemma split1_decompose:
  assumes "sep \<in> set s"
  shows "s = takeWhile (\<lambda>c. c \<noteq> sep) s @ sep # tl (dropWhile (\<lambda>c. c \<noteq> sep) s)
         \<and> sep \<notin> set (takeWhile (\<lambda>c. c \<noteq> sep) s)"
proof -
  let ?d = "dropWhile (\<lambda>c. c \<noteq> sep) s"
  from assms have "?d \<noteq> []" by simp
  moreover have "?d \<noteq> [] \<Longrightarrow> hd ?d = sep" using hd_dropWhile [of "\<lambda>c. c \<noteq> sep" s] by simp
  ultimately have "?d = sep # tl ?d" by (cases ?d) auto
  then have "s = takeWhile (\<lambda>c. c \<noteq> sep) s @ sep # tl ?d"
    using takeWhile_dropWhile_id [of "\<lambda>c. c \<noteq> sep" s] by simp
  moreover have "sep \<notin> set (takeWhile (\<lambda>c. c \<noteq> sep) s)"
    by (auto dest: set_takeWhileD)
  ultimately show ?thesis by blast
qed

lemma unpack2_split1_Inr:
  "unpack2 (split1 sep s) = Inr (a, b) \<longleftrightarrow> s = a @ sep # b \<and> sep \<notin> set a"
proof
  assume h: "unpack2 (split1 sep s) = Inr (a, b)"
  then have m: "sep \<in> set s" by (simp add: unpack2_split1 split: if_splits)
  with h have "a = takeWhile (\<lambda>c. c \<noteq> sep) s" "b = tl (dropWhile (\<lambda>c. c \<noteq> sep) s)"
    by (simp_all add: unpack2_split1)
  with split1_decompose [OF m] show "s = a @ sep # b \<and> sep \<notin> set a" by simp
next
  assume "s = a @ sep # b \<and> sep \<notin> set a"
  then show "unpack2 (split1 sep s) = Inr (a, b)" by (simp add: unpack2_split1_append)
qed

lemma check_auth_iff:
  "check_auth cfg dec hdr \<longleftrightarrow>
     (\<exists>ty cr. hdr = Some (ty @ CHR '' '' # cr) \<and> CHR '' '' \<notin> set ty \<and> lower ty = ''basic''
        \<and> (\<exists>u p. dec cr = Inr (u @ colon # p) \<and> colon \<notin> set u
               \<and> u = USERNAME cfg \<and> p = PASSWORD cfg))"
  (is "?L \<longleftrightarrow> ?R")
proof
  assume ?L
  then obtain h where h: "hdr = Some h" "h \<noteq> []" "auth_try cfg dec h = Inr True"
    by (auto simp: check_auth_def split: option.splits if_splits sum.splits)
  from h(3) obtain ty cr where s: "unpack2 (split1 CHR '' '' h) = Inr (ty, cr)"
    by (auto simp: auth_try_def split: sum.splits)
  with h(3) have b: "lower ty = ''basic''"
    by (auto simp: auth_try_def split: if_splits)
  with h(3) s obtain d where d: "dec cr = Inr d"
    by (auto simp: auth_try_def split: sum.splits)
  with h(3) s b obtain u p where u: "unpack2 (split1 colon d) = Inr (u, p)"
    by (auto simp: auth_try_def split: sum.splits)
  with h(3) s b d have e: "u = USERNAME cfg" "p = PASSWORD cfg"
    by (auto simp: auth_try_def)
  from s have "h = ty @ CHR '' '' # cr" "CHR '' '' \<notin> set ty"
    by (simp_all add: unpack2_split1_Inr)
  moreover from u have "d = u @ colon # p" "colon \<notin> set u"
    by (simp_all add: unpack2_split1_Inr)
  ultimately show ?R using h(1) b d e by blast
next
  assume ?R
  then show ?L
    by (auto simp: check_auth_def auth_try_def unpack2_split1_append)
qed

lemma lower_space: "lower ty = ''basic'' \<Longrightarrow> CHR '' '' \<notin> set ty"
proof
  assume a: "lower ty = ''basic''" and b: "CHR '' '' \<in> set ty"
  have "lower_char CHR '' '' = CHR '' ''" by (simp add: lower_char_def)
  with b have "CHR '' '' \<in> set (lower ty)" by (force simp: lower_def)
  with a show False by simp
qed


lemma lower_samples:
  "lower ''Basic'' = ''basic''" "lower ''basic'' = ''basic''" "lower ''BASIC'' = ''basic''"
  "lower ''Bearer'' \<noteq> ''basic''"
  by code_simp+

lemma check_auth_split:
  "CHR '' '' \<notin> set ty \<Longrightarrow>
   check_auth cfg dec (Some (ty @ CHR '' '' # cr)) =
     (lower ty = ''basic'' \<and>
      (case dec cr of
         Inl e \<Rightarrow> False
       | Inr d \<Rightarrow>
           (case unpack2 (split1 colon d) of
              Inl e \<Rightarrow> False
            | Inr (u, p) \<Rightarrow> u = USERNAME cfg \<and> p = PASSWORD cfg)))"
  by (simp add: check_auth_def auth_try_def unpack2_split1_append split: sum.splits)

subsection \<open>The standard decoder\<close>

lemma b64_value_pad: "b64_value CHR ''='' = None"
  by code_simp

lemma b64_value_ascii: "b64_value c = Some v \<Longrightarrow> is_ascii c"
  by (auto simp: b64_value_def is_ascii_def Let_def split: if_splits)

lemma b64_symbol_ascii: "b64_symbol c \<Longrightarrow> is_ascii c"
  using b64_value_ascii [of c] by (auto simp: b64_symbol_def is_ascii_def)

lemma isl_emit: "isl (emit b r) = isl r"
  by (cases r) simp_all

lemma a2b_skips: "a2b_base64 q l p (filter b64_symbol cs) = a2b_base64 q l p cs"
  by (induction cs arbitrary: q l p) (auto simp: b64_symbol_def split: option.splits)

lemma emit_error: "emit b r = Inl e \<longleftrightarrow> r = Inl e"
  by (cases r) simp_all

lemma a2b_error: "a2b_base64 q l p cs = Inl e \<Longrightarrow> e = DecodeError"
  by (induction q l p cs rule: a2b_base64.induct)
     (auto simp: emit_error split: if_splits option.splits)

lemma b64decode_skips:
  assumes "list_all is_ascii cs"
  shows "b64decode (filter b64_symbol cs) = b64decode cs"
proof -
  from assms have "list_all is_ascii (filter b64_symbol cs)"
    by (simp add: list_all_iff)
  with assms show ?thesis by (simp add: b64decode_def a2b_skips)
qed

lemma a2b_unpadded:
  assumes "CHR ''='' \<notin> set cs" "q < 4"
  shows "isl (a2b_base64 q l p cs) \<longleftrightarrow>
           (q + length (filter (\<lambda>c. b64_value c \<noteq> None) cs)) mod 4 \<noteq> 0"
  using assms
proof (induction cs arbitrary: q l p)
  case Nil
  then show ?case by simp
next
  case (Cons c cs)
  from Cons.prems have c: "c \<noteq> CHR ''=''" and r: "CHR ''='' \<notin> set cs" by auto
  show ?case
  proof (cases "b64_value c")
    case None
    with c Cons.IH [OF r Cons.prems(2), of l p] show ?thesis by simp
  next
    case (Some v)
    from Cons.prems(2) consider "q = 0" | "q = 1" | "q = 2" | "q = 3" by linarith
    then show ?thesis
    proof cases
      case 1
      with Some c Cons.IH [OF r, of 1 v 0] show ?thesis by simp
    next
      case 2
      with Some c Cons.IH [OF r, of 2 "v mod 16" 0] show ?thesis by (simp add: isl_emit)
    next
      case 3
      with Some c Cons.IH [OF r, of 3 "v mod 4" 0] show ?thesis by (simp add: isl_emit)
    next
      case 4
      with Some c Cons.IH [OF r, of 0 0 0] show ?thesis by (simp add: isl_emit)
    qed
  qed
qed

lemma a2b_body:
  assumes "list_all (\<lambda>c. b64_value c \<noteq> None) body" "q < 4"
  shows "\<exists>l'. isl (a2b_base64 q l 0 (body @ rest)) =
               isl (a2b_base64 ((q + length body) mod 4) l' 0 rest)"
  using assms
proof (induction body arbitrary: q l)
  case Nil
  then show ?case by auto
next
  case (Cons c body)
  from Cons.prems obtain v where v: "b64_value c = Some v" by auto
  with b64_value_pad have c: "c \<noteq> CHR ''=''" by auto
  from Cons.prems have b: "list_all (\<lambda>c. b64_value c \<noteq> None) body" by simp
  from Cons.prems(2) consider "q = 0" | "q = 1" | "q = 2" | "q = 3" by linarith
  then show ?case
  proof cases
    case 1
    with v c Cons.IH [OF b, of 1 v] show ?thesis by simp
  next
    case 2
    with v c Cons.IH [OF b, of 2 "v mod 16"] show ?thesis by (simp add: isl_emit)
  next
    case 3
    with v c Cons.IH [OF b, of 3 "v mod 4"] show ?thesis by (simp add: isl_emit)
  next
    case 4
    with v c Cons.IH [OF b, of 0 0] show ?thesis by (simp add: isl_emit)
  qed
qed

lemma valid_base64_decodes:
  assumes "valid_base64 s"
  shows "\<exists>bs. b64decode s = Inr bs"
proof -
  define body where "body = takeWhile (\<lambda>c. c \<noteq> CHR ''='') s"
  define pad where "pad = dropWhile (\<lambda>c. c \<noteq> CHR ''='') s"
  have s: "s = body @ pad" by (simp add: body_def pad_def)
  from assms have len: "length s mod 4 = 0"
    and al: "list_all (\<lambda>c. b64_value c \<noteq> None) body"
    and pd: "pad = [] \<or> pad = ''='' \<or> pad = ''==''"
    by (simp_all add: valid_base64_def Let_def body_def pad_def)
  from al have "list_all is_ascii body"
    using b64_value_ascii by (auto simp: list_all_iff)
  moreover from pd have "list_all is_ascii pad" by (auto simp: is_ascii_def)
  ultimately have asc: "list_all is_ascii s" by (simp add: s)
  from a2b_body [OF al, of 0 0 pad] obtain l' where
    l': "isl (a2b_base64 0 0 0 s) = isl (a2b_base64 (length body mod 4) l' 0 pad)"
    by (auto simp: s)
  from pd have "\<not> isl (a2b_base64 (length body mod 4) l' 0 pad)"
  proof (elim disjE)
    assume "pad = []"
    with len s show ?thesis by simp
  next
    assume p: "pad = ''=''"
    with len s have "Suc (length body) mod 4 = 0" by simp
    then have "length body mod 4 = 3" by presburger
    with p show ?thesis by simp
  next
    assume p: "pad = ''==''"
    with len s have "Suc (Suc (length body)) mod 4 = 0" by simp
    then have "length body mod 4 = 2" by presburger
    with p show ?thesis by simp
  qed
  with l' have "\<not> isl (a2b_base64 0 0 0 s)" by simp
  with asc show ?thesis by (cases "a2b_base64 0 0 0 s") (simp_all add: b64decode_def)
qed

lemma b64decode_unpadded:
  assumes "list_all is_ascii cs" "CHR ''='' \<notin> set cs"
  shows "b64decode cs = Inl DecodeError \<longleftrightarrow>
           length (filter (\<lambda>c. b64_value c \<noteq> None) cs) mod 4 \<noteq> 0"
proof -
  have "b64decode cs = Inl DecodeError \<longleftrightarrow> isl (a2b_base64 0 0 0 cs)"
    using assms(1) a2b_error [of 0 0 0 cs]
    by (cases "a2b_base64 0 0 0 cs") (auto simp: b64decode_def)
  with a2b_unpadded [OF assms(2), of 0 0 0] show ?thesis by simp
qed

lemma py_decoder_skips:
  "list_all is_ascii cs \<Longrightarrow> py_decoder (filter b64_symbol cs) = py_decoder cs"
  by (simp add: py_decoder_def b64decode_skips)

lemma py_decoder_not_ascii: "\<not> list_all is_ascii cs \<Longrightarrow> py_decoder cs = Inl ValueError"
  by (simp add: py_decoder_def b64decode_def)

lemma check_auth_skips:
  assumes "CHR '' '' \<notin> set ty" "list_all is_ascii cr"
  shows "check_auth cfg py_decoder (Some (ty @ CHR '' '' # filter b64_symbol cr)) =
         check_auth cfg py_decoder (Some (ty @ CHR '' '' # cr))"
  using assms by (simp add: check_auth_split py_decoder_skips)

lemma py_decoder_values:
  "py_decoder ''YWRtaW46c2VjcmV0'' = Inr (ustr_of ''admin'' @ colon # ustr_of ''secret'')"
  "py_decoder ''QWRtaW46c2VjcmV0'' = Inr (ustr_of ''Admin'' @ colon # ustr_of ''secret'')"
  "py_decoder ''YWRtaW46U2VjcmV0'' = Inr (ustr_of ''admin'' @ colon # ustr_of ''Secret'')"
  "py_decoder ''YWRtaW4='' = Inr (ustr_of ''admin'')"
  "py_decoder ''YWRtaW46YTpiOmM='' = Inr (ustr_of ''admin'' @ colon # ustr_of ''a:b:c'')"
  "py_decoder ''YWQ6bWluOnNlY3JldA=='' = Inr (ustr_of ''ad'' @ colon # ustr_of ''min:secret'')"
  "py_decoder ''YWRtaW46c2VjcmV'' = Inl DecodeError"
  "py_decoder ''/w=='' = Inl DecodeError"
  "py_decoder [CHR 0xE9] = Inl ValueError"
  by code_simp+

text \<open>On the texts of \<open>sample_table\<close> the sample decoder is the standard decoder.\<close>

lemma sample_decoder_standard:
  "list_all (\<lambda>(k, v). sample_decoder k = py_decoder k) sample_table"
  by code_simp

lemma sample_payloads:
  "list_all is_ascii ''YWRtaW46c2VjcmV0!''"
  "filter b64_symbol ''YWRtaW46c2VjcmV0!'' = ''YWRtaW46c2VjcmV0''"
  "list_all is_ascii ''YWRtaW46c2VjcmV''"
  "length (filter (\<lambda>c. b64_value c \<noteq> None) ''YWRtaW46c2VjcmV'') = 15"
  "valid_base64 ''YWRtaW46c2VjcmV0''"
  "\<not> list_all is_ascii [CHR 0xE9]"
  by code_simp+

text \<open>
  Claim C2, as stated, has \<open>check_auth\<close> return \<open>False\<close> whenever the payload is not valid
  Base64. The call of line 47 does not validate the payload: the decoder skips every
  character outside the alphabet and every \<open>=\<close> that is not padding, and stops reading at
  the first complete padding. The payload \<open>YWRtaW46c2VjcmV0!\<close> is not valid Base64, for its
  last character is outside the alphabet and its length is 17; it decodes to
  \<open>admin:secret\<close> all the same, and \<open>check_auth\<close> returns \<open>True\<close>. So do the payloads with a
  space in the middle and with four \<open>=\<close> at the end.
\<close>

theorem check_auth_accepts_invalid_base64:
  "\<not> valid_base64 ''YWRtaW46c2VjcmV0!''
   \<and> b64_value CHR ''!'' = None
   \<and> py_decoder ''YWRtaW46c2VjcmV0!'' = Inr (ustr_of ''admin:secret'')
   \<and> USERNAME sample_config = ustr_of ''admin''
   \<and> PASSWORD sample_config = ustr_of ''secret''
   \<and> check_auth sample_config py_decoder (Some ''Basic YWRtaW46c2VjcmV0!'')
   \<and> \<not> valid_base64 ''YWRt aW46c2VjcmV0''
   \<and> check_auth sample_config py_decoder (Some ''Basic YWRt aW46c2VjcmV0'')
   \<and> \<not> valid_base64 ''YWRtaW46c2VjcmV0====''
   \<and> check_auth sample_config py_decoder (Some ''Basic YWRtaW46c2VjcmV0===='')"
  by code_simp

text \<open>
  Claim C2, amended. \<open>check_auth\<close> is a total function to \<open>bool\<close>: whatever the header, it
  returns and raises nothing. With any decoder in the place of the library call, it
  returns \<open>False\<close> when the header is missing or empty, when it has no space after the
  scheme, when the scheme is not \<open>basic\<close> in lower case, when the decoder raises on the
  credential text, when the decoded text has no colon, and when the name before the first
  colon or the password after it differs from the configured one. It returns \<open>True\<close>
  exactly when the header is a scheme that is \<open>basic\<close> in lower case, one space, and a
  credential text that decodes to the configured user name, a colon and the configured
  password, compared code point by code point.

  The standard decoder raises on a credential text with a character that is not ASCII.
  On an ASCII text it gives what it gives on the text without the characters that are
  neither of the alphabet nor \<open>=\<close>, so that \<open>check_auth\<close> returns the same for both. On an
  ASCII text without \<open>=\<close>, the Base64 stage raises exactly when the number of characters
  of the alphabet is not a multiple of four. It never raises on valid Base64.
\<close>

theorem check_auth_validate:
  "\<not> check_auth cfg dec None
   \<and> \<not> check_auth cfg dec (Some [])
   \<and> (CHR '' '' \<notin> set h \<longrightarrow> \<not> check_auth cfg dec (Some h))
   \<and> (CHR '' '' \<notin> set ty \<and> lower ty \<noteq> ''basic'' \<longrightarrow>
        \<not> check_auth cfg dec (Some (ty @ CHR '' '' # cr)))
   \<and> (CHR '' '' \<notin> set ty \<and> dec cr = Inl e \<longrightarrow>
        \<not> check_auth cfg dec (Some (ty @ CHR '' '' # cr)))
   \<and> (CHR '' '' \<notin> set ty \<and> dec cr = Inr d \<and> colon \<notin> set d \<longrightarrow>
        \<not> check_auth cfg dec (Some (ty @ CHR '' '' # cr)))
   \<and> (CHR '' '' \<notin> set ty \<and> dec cr = Inr (u @ colon # p) \<and> colon \<notin> set u
        \<and> (u \<noteq> USERNAME cfg \<or> p \<noteq> PASSWORD cfg) \<longrightarrow>
        \<not> check_auth cfg dec (Some (ty @ CHR '' '' # cr)))
   \<and> (check_auth cfg dec hdr \<longleftrightarrow>
        (\<exists>ty cr. hdr = Some (ty @ CHR '' '' # cr) \<and> lower ty = ''basic''
           \<and> dec cr = Inr (USERNAME cfg @ colon # PASSWORD cfg)
           \<and> colon \<notin> set (USERNAME cfg)))
   \<and> (\<not> list_all is_ascii cr \<longrightarrow> py_decoder cr = Inl ValueError)
   \<and> (list_all is_ascii cr \<longrightarrow> py_decoder (filter b64_symbol cr) = py_decoder cr)
   \<and> (CHR '' '' \<notin> set ty \<and> list_all is_ascii cr \<longrightarrow>
        check_auth cfg py_decoder (Some (ty @ CHR '' '' # filter b64_symbol cr)) =
        check_auth cfg py_decoder (Some (ty @ CHR '' '' # cr)))
   \<and> (list_all is_ascii cr \<and> CHR ''='' \<notin> set cr \<longrightarrow>
        (b64decode cr = Inl DecodeError \<longleftrightarrow>
           length (filter (\<lambda>c. b64_value c \<noteq> None) cr) mod 4 \<noteq> 0))
   \<and> (valid_base64 cr \<longrightarrow> (\<exists>bs. b64decode cr = Inr bs))"
proof -
  have 1: "\<not> check_auth cfg dec None" "\<not> check_auth cfg dec (Some [])"
    by (simp_all add: check_auth_def)
  have 2: "\<not> check_auth cfg dec (Some h)" if "CHR '' '' \<notin> set h"
    using that by (auto simp: check_auth_iff)
  have 3: "\<not> check_auth cfg dec (Some (ty @ CHR '' '' # cr))"
    if "CHR '' '' \<notin> set ty" "lower ty \<noteq> ''basic''"
    using that by (simp add: check_auth_split)
  have 4: "\<not> check_auth cfg dec (Some (ty @ CHR '' '' # cr))"
    if "CHR '' '' \<notin> set ty" "dec cr = Inl e"
    using that by (simp add: check_auth_split)
  have 5: "\<not> check_auth cfg dec (Some (ty @ CHR '' '' # cr))"
    if "CHR '' '' \<notin> set ty" "dec cr = Inr d" "colon \<notin> set d"
    using that by (simp add: check_auth_split unpack2_split1)
  have 6: "\<not> check_auth cfg dec (Some (ty @ CHR '' '' # cr))"
    if "CHR '' '' \<notin> set ty" "dec cr = Inr (u @ colon # p)" "colon \<notin> set u"
      "u \<noteq> USERNAME cfg \<or> p \<noteq> PASSWORD cfg"
    using that by (auto simp: check_auth_split unpack2_split1_append)
  have 7: "check_auth cfg dec hdr \<longleftrightarrow>
        (\<exists>ty cr. hdr = Some (ty @ CHR '' '' # cr) \<and> lower ty = ''basic''
           \<and> dec cr = Inr (USERNAME cfg @ colon # PASSWORD cfg)
           \<and> colon \<notin> set (USERNAME cfg))"
    unfolding check_auth_iff using lower_space by blast
  have 8: "\<not> list_all is_ascii cr \<longrightarrow> py_decoder cr = Inl ValueError"
    using py_decoder_not_ascii by blast
  have 9: "list_all is_ascii cr \<longrightarrow> py_decoder (filter b64_symbol cr) = py_decoder cr"
    using py_decoder_skips by blast
  have 10: "CHR '' '' \<notin> set ty \<and> list_all is_ascii cr \<longrightarrow>
        check_auth cfg py_decoder (Some (ty @ CHR '' '' # filter b64_symbol cr)) =
        check_auth cfg py_decoder (Some (ty @ CHR '' '' # cr))"
    using check_auth_skips by blast
  have 11: "list_all is_ascii cr \<and> CHR ''='' \<notin> set cr \<longrightarrow>
        (b64decode cr = Inl DecodeError \<longleftrightarrow>
           length (filter (\<lambda>c. b64_value c \<noteq> None) cr) mod 4 \<noteq> 0)"
    using b64decode_unpadded by blast
  have 12: "valid_base64 cr \<longrightarrow> (\<exists>bs. b64decode cr = Inr bs)"
    using valid_base64_decodes by blast
  have 3: "CHR '' '' \<notin> set ty \<and> lower ty \<noteq> ''basic'' \<longrightarrow>
        \<not> check_auth cfg dec (Some (ty @ CHR '' '' # cr))"
    using 3 by blast
  have 4: "CHR '' '' \<notin> set ty \<and> dec cr = Inl e \<longrightarrow>
        \<not> check_auth cfg dec (Some (ty @ CHR '' '' # cr))"
    using 4 by blast
  have 5: "CHR '' '' \<notin> set ty \<and> dec cr = Inr d \<and> colon \<notin> set d \<longrightarrow>
        \<not> check_auth cfg dec (Some (ty @ CHR '' '' # cr))"
    using 5 by blast
  have 6: "CHR '' '' \<notin> set ty \<and> dec cr = Inr (u @ colon # p) \<and> colon \<notin> set u
        \<and> (u \<noteq> USERNAME cfg \<or> p \<noteq> PASSWORD cfg) \<longrightarrow>
        \<not> check_auth cfg dec (Some (ty @ CHR '' '' # cr))"
    using 6 by blast
  have 2: "CHR '' '' \<notin> set h \<longrightarrow> \<not> check_auth cfg dec (Some h)"
    using 2 by blast
  show ?thesis
    by (rule conjI [OF 1(1) conjI [OF 1(2) conjI [OF 2 conjI [OF 3 conjI [OF 4 conjI [OF 5
          conjI [OF 6 conjI [OF 7 conjI [OF 8 conjI [OF 9 conjI [OF 10
          conjI [OF 11 12]]]]]]]]]]]])
qed

lemma sample_decoder_values:
  "sample_decoder ''YWRtaW46c2VjcmV0'' = Inr (ustr_of ''admin'' @ colon # ustr_of ''secret'')"
  "sample_decoder ''QWRtaW46c2VjcmV0'' = Inr (ustr_of ''Admin'' @ colon # ustr_of ''secret'')"
  "sample_decoder ''YWRtaW46U2VjcmV0'' = Inr (ustr_of ''admin'' @ colon # ustr_of ''Secret'')"
  "sample_decoder ''YWRtaW4='' = Inr (ustr_of ''admin'')"
  "sample_decoder ''YWRtaW46YTpiOmM='' = Inr (ustr_of ''admin'' @ colon # ustr_of ''a:b:c'')"
  "sample_decoder ''YWQ6bWluOnNlY3JldA=='' = Inr (ustr_of ''ad'' @ colon # ustr_of ''min:secret'')"
  "sample_decoder ''YWRtaW46c2VjcmV'' = Inl DecodeError"
  by (simp_all add: sample_decoder_def sample_table_def ustr_of_def colon_def)

lemma sample_texts:
  "colon \<notin> set (ustr_of ''admin'')" "colon \<notin> set (ustr_of ''Admin'')"
  "colon \<notin> set (ustr_of ''ad'')" "colon \<in> set (ustr_of ''ad:min'')"
  "ustr_of ''Admin'' \<noteq> ustr_of ''admin''" "ustr_of ''Secret'' \<noteq> ustr_of ''secret''"
  "ustr_of ''a:b:c'' \<noteq> ustr_of ''secret''"
  by (simp_all add: ustr_of_def colon_def)

theorem check_auth_validate_witness:
  "\<not> check_auth sample_config py_decoder (Some ''Basic'')
   \<and> \<not> check_auth sample_config py_decoder (Some ''Bearer YWRtaW46c2VjcmV0'')
   \<and> \<not> check_auth sample_config py_decoder (Some ''Basic YWRtaW46c2VjcmV'')
   \<and> \<not> check_auth sample_config py_decoder (Some ''Basic /w=='')
   \<and> \<not> check_auth sample_config py_decoder (Some ''Basic YWRtaW4='')
   \<and> \<not> check_auth sample_config py_decoder (Some ''Basic QWRtaW46c2VjcmV0'')
   \<and> \<not> check_auth sample_config py_decoder (Some ''Basic YWRtaW46U2VjcmV0'')
   \<and> check_auth sample_config py_decoder (Some ''Basic YWRtaW46c2VjcmV0'')
   \<and> check_auth sample_config py_decoder (Some ''Basic YWRtaW46c2VjcmV0!'')
   \<and> py_decoder [CHR 0xE9] = Inl ValueError
   \<and> b64decode ''YWRtaW46c2VjcmV'' = Inl DecodeError
   \<and> (\<exists>bs. b64decode ''YWRtaW46c2VjcmV0'' = Inr bs)"
proof -
  note t = check_auth_validate [where cfg = sample_config and dec = py_decoder]
  have a: "\<not> check_auth sample_config py_decoder (Some ''Basic'')"
    using t [where h = "''Basic''", THEN conjunct2, THEN conjunct2, THEN conjunct1] by simp
  have b: "\<not> check_auth sample_config py_decoder (Some ''Bearer YWRtaW46c2VjcmV0'')"
    using t [where ty = "''Bearer''" and cr = "''YWRtaW46c2VjcmV0''", THEN conjunct2, THEN conjunct2, THEN conjunct2, THEN conjunct1]
      lower_samples(4) by simp
  have c: "\<not> check_auth sample_config py_decoder (Some ''Basic YWRtaW46c2VjcmV'')"
    using t [where ty = "''Basic''" and cr = "''YWRtaW46c2VjcmV''" and e = DecodeError, THEN conjunct2, THEN conjunct2, THEN conjunct2, THEN conjunct2, THEN conjunct1]
      py_decoder_values(7) by simp
  have c2: "\<not> check_auth sample_config py_decoder (Some ''Basic /w=='')"
    using t [where ty = "''Basic''" and cr = "''/w==''" and e = DecodeError, THEN conjunct2, THEN conjunct2, THEN conjunct2, THEN conjunct2, THEN conjunct1]
      py_decoder_values(8) by simp
  have d: "\<not> check_auth sample_config py_decoder (Some ''Basic YWRtaW4='')"
    using t [where ty = "''Basic''" and cr = "''YWRtaW4=''" and d = "ustr_of ''admin''", THEN conjunct2, THEN conjunct2, THEN conjunct2, THEN conjunct2, THEN conjunct2, THEN conjunct1]
      py_decoder_values(4) sample_texts(1) by simp
  have e: "\<not> check_auth sample_config py_decoder (Some ''Basic QWRtaW46c2VjcmV0'')"
    using t [where ty = "''Basic''" and cr = "''QWRtaW46c2VjcmV0''"
        and u = "ustr_of ''Admin''" and p = "ustr_of ''secret''", THEN conjunct2, THEN conjunct2, THEN conjunct2, THEN conjunct2, THEN conjunct2, THEN conjunct2, THEN conjunct1]
      py_decoder_values(2) sample_texts(2,5) by (simp add: sample_config_def)
  have f: "\<not> check_auth sample_config py_decoder (Some ''Basic YWRtaW46U2VjcmV0'')"
    using t [where ty = "''Basic''" and cr = "''YWRtaW46U2VjcmV0''"
        and u = "ustr_of ''admin''" and p = "ustr_of ''Secret''", THEN conjunct2, THEN conjunct2, THEN conjunct2, THEN conjunct2, THEN conjunct2, THEN conjunct2, THEN conjunct1]
      py_decoder_values(3) sample_texts(1,6) by (simp add: sample_config_def)
  have "\<exists>ty cr. Some ''Basic YWRtaW46c2VjcmV0'' = Some (ty @ CHR '' '' # cr)
           \<and> lower ty = ''basic''
           \<and> py_decoder cr = Inr (USERNAME sample_config @ colon # PASSWORD sample_config)
           \<and> colon \<notin> set (USERNAME sample_config)"
    using lower_samples(1) py_decoder_values(1) sample_texts(1)
    by (intro exI [of _ "''Basic''"] exI [of _ "''YWRtaW46c2VjcmV0''"])
       (simp add: sample_config_def)
  then have g: "check_auth sample_config py_decoder (Some ''Basic YWRtaW46c2VjcmV0'')"
    using t [where hdr = "Some ''Basic YWRtaW46c2VjcmV0''", THEN conjunct2, THEN conjunct2, THEN conjunct2, THEN conjunct2, THEN conjunct2, THEN conjunct2, THEN conjunct2, THEN conjunct1] by blast
  have i: "py_decoder [CHR 0xE9] = Inl ValueError"
    using t [where cr = "[CHR 0xE9]", THEN conjunct2, THEN conjunct2, THEN conjunct2, THEN conjunct2, THEN conjunct2,
        THEN conjunct2, THEN conjunct2, THEN conjunct2, THEN conjunct1]
      sample_payloads(6) by blast
  have h: "check_auth sample_config py_decoder (Some ''Basic YWRtaW46c2VjcmV0!'')"
    using t [where ty = "''Basic''" and cr = "''YWRtaW46c2VjcmV0!''", THEN conjunct2, THEN conjunct2, THEN conjunct2, THEN conjunct2, THEN conjunct2,
        THEN conjunct2, THEN conjunct2, THEN conjunct2,
        THEN conjunct2, THEN conjunct2, THEN conjunct1] sample_payloads(1,2) g
    by simp
  have j: "b64decode ''YWRtaW46c2VjcmV'' = Inl DecodeError"
    using t [where cr = "''YWRtaW46c2VjcmV''", THEN conjunct2, THEN conjunct2, THEN conjunct2, THEN conjunct2, THEN conjunct2,
        THEN conjunct2, THEN conjunct2, THEN conjunct2,
        THEN conjunct2, THEN conjunct2, THEN conjunct2, THEN conjunct1] sample_payloads(3,4)
    by simp
  have k: "\<exists>bs. b64decode ''YWRtaW46c2VjcmV0'' = Inr bs"
    using t [where cr = "''YWRtaW46c2VjcmV0''", THEN conjunct2, THEN conjunct2, THEN conjunct2, THEN conjunct2, THEN conjunct2,
        THEN conjunct2, THEN conjunct2, THEN conjunct2,
        THEN conjunct2, THEN conjunct2, THEN conjunct2, THEN conjunct2] sample_payloads(5)
    by blast
  from a b c c2 d e f g h i j k show ?thesis by (simp only: simp_thms)
qed

text \<open>
  Claim C10. The decoded text is split at its first colon only. With a configured user name
  that has no colon, presenting the configured pair validates whatever the password is,
  colons included: what follows the first colon is compared with the password as a whole.
  A configured user name that contains a colon validates for no header. The scheme is
  compared in lower case: \<open>Basic\<close>, \<open>basic\<close> and \<open>BASIC\<close> are accepted alike.
\<close>

theorem check_auth_first_colon:
  "(colon \<notin> set (USERNAME cfg) \<and> lower ty = ''basic''
      \<and> dec cr = Inr (USERNAME cfg @ colon # PASSWORD cfg) \<longrightarrow>
      check_auth cfg dec (Some (ty @ CHR '' '' # cr)))
   \<and> (lower ty = ''basic'' \<and> dec cr = Inr (u @ colon # p) \<and> colon \<notin> set u \<longrightarrow>
        (check_auth cfg dec (Some (ty @ CHR '' '' # cr)) \<longleftrightarrow>
           u = USERNAME cfg \<and> p = PASSWORD cfg))
   \<and> (colon \<in> set (USERNAME cfg) \<longrightarrow> \<not> check_auth cfg dec hdr)
   \<and> lower ''Basic'' = ''basic'' \<and> lower ''basic'' = ''basic'' \<and> lower ''BASIC'' = ''basic''
   \<and> (lower ty = ''basic'' \<longrightarrow>
        check_auth cfg dec (Some (ty @ CHR '' '' # cr)) =
        check_auth cfg dec (Some (''Basic'' @ CHR '' '' # cr)))"
proof -
  have sp: "CHR '' '' \<notin> set ''Basic''" by simp
  have 1: "check_auth cfg dec (Some (ty @ CHR '' '' # cr)) \<longleftrightarrow> u = USERNAME cfg \<and> p = PASSWORD cfg"
    if "lower ty = ''basic''" "dec cr = Inr (u @ colon # p)" "colon \<notin> set u" for u p
    using that lower_space [OF that(1)]
    by (simp add: check_auth_split unpack2_split1_append)
  have 2: "\<not> check_auth cfg dec hdr" if "colon \<in> set (USERNAME cfg)"
    using that by (auto simp: check_auth_iff)
  have 3: "check_auth cfg dec (Some (ty @ CHR '' '' # cr)) =
        check_auth cfg dec (Some (''Basic'' @ CHR '' '' # cr))" if "lower ty = ''basic''"
    using that lower_samples(1)
    by (simp only: check_auth_split [OF lower_space [OF that]] check_auth_split [OF sp])
  from 1 2 3 lower_samples(1,2,3) show ?thesis by blast
qed

theorem check_auth_first_colon_witness:
  "check_auth colon_password_config sample_decoder (Some ''BASIC YWRtaW46YTpiOmM='')
   \<and> \<not> check_auth sample_config sample_decoder (Some ''basic YWRtaW46YTpiOmM='')
   \<and> \<not> check_auth colon_username_config sample_decoder (Some ''Basic YWQ6bWluOnNlY3JldA=='')
   \<and> check_auth sample_config sample_decoder (Some ''basic YWRtaW46c2VjcmV0'') =
       check_auth sample_config sample_decoder (Some ''Basic YWRtaW46c2VjcmV0'')"
proof -
  have a: "check_auth colon_password_config sample_decoder (Some ''BASIC YWRtaW46YTpiOmM='')"
    using check_auth_first_colon [where cfg = colon_password_config and dec = sample_decoder
        and ty = "''BASIC''" and cr = "''YWRtaW46YTpiOmM=''", THEN conjunct1]
      lower_samples(3) sample_decoder_values(5) sample_texts(1)
    by (simp add: colon_password_config_def)
  have b: "\<not> check_auth sample_config sample_decoder (Some ''basic YWRtaW46YTpiOmM='')"
    using check_auth_first_colon [where cfg = sample_config and dec = sample_decoder
        and ty = "''basic''" and cr = "''YWRtaW46YTpiOmM=''"
        and u = "ustr_of ''admin''" and p = "ustr_of ''a:b:c''", THEN conjunct2, THEN conjunct1]
      lower_samples(2) sample_decoder_values(5) sample_texts(1,7)
    by (simp add: sample_config_def)
  have c: "\<not> check_auth colon_username_config sample_decoder (Some ''Basic YWQ6bWluOnNlY3JldA=='')"
    using check_auth_first_colon [where cfg = colon_username_config and dec = sample_decoder
        and hdr = "Some ''Basic YWQ6bWluOnNlY3JldA==''", THEN conjunct2, THEN conjunct2, THEN conjunct1] sample_texts(4)
    by (simp add: colon_username_config_def)
  have d: "check_auth sample_config sample_decoder (Some ''basic YWRtaW46c2VjcmV0'') =
       check_auth sample_config sample_decoder (Some ''Basic YWRtaW46c2VjcmV0'')"
    using check_auth_first_colon [where cfg = sample_config and dec = sample_decoder
        and ty = "''basic''" and cr = "''YWRtaW46c2VjcmV0''", THEN conjunct2, THEN conjunct2, THEN conjunct2, THEN conjunct2, THEN conjunct2, THEN conjunct2] lower_samples(2)
    by simp
  from a b c d show ?thesis by blast
qed

section \<open>The frame slot and the stream handlers\<close>

subsection \<open>Steps and invariants\<close>

lemma sess_upd [simp]: "sess (upd i f s) j = (if j = i then f (sess s i) else sess s j)"
  by (simp add: upd_def)

lemma upd_fields [simp]:
  "frame (upd i f s) = frame s" "lock (upd i f s) = lock s" "writer (upd i f s) = writer s"
  "published (upd i f s) = published s" "version (upd i f s) = version s"
  by (simp_all add: upd_def version_def)

lemma notify_fields [simp]:
  "frame (notify_all s) = frame s" "lock (notify_all s) = lock s"
  "writer (notify_all s) = writer s" "published (notify_all s) = published s"
  "version (notify_all s) = version s"
  "sess (notify_all s) j = (if pc (sess s j) = Waiting then (sess s j)\<lparr>pc := Notified\<rparr> else sess s j)"
  by (simp_all add: notify_all_def version_def)

lemma version_simps [simp]:
  "version (s\<lparr>lock := l\<rparr>) = version s" "version (s\<lparr>writer := w\<rparr>) = version s"
  "version (s\<lparr>frame := f\<rparr>) = version s"
  "version (s\<lparr>published := p\<rparr>) = length p"
  by (simp_all add: version_def)

lemma send_keeps [simp]:
  "seen (send fails h) = seen h" "wait_from (send fails h) = wait_from h"
  "frame_var (send fails h) = frame_var h"
  by (auto simp: send_def split: list.splits stmt.splits)


lemma send_holds: "holds (pc (send fails h)) \<Longrightarrow> holds (pc h)"
  by (auto simp: send_def pending_def raise_in_def continue_def split: pc.splits list.splits stmt.splits if_splits)

lemma do_GET_holds [simp]: "\<not> holds (do_GET e hdr path)"
  by (simp add: do_GET_def)

lemma lock_invD:
  assumes "lock_inv s"
  shows "writer s \<noteq> WIdle \<Longrightarrow> lock s = Some Producer"
    and "pc (sess s j) = InWith \<Longrightarrow> lock s = Some (Handler j)"
    and "pc (sess s j) = Woken \<Longrightarrow> lock s = Some (Handler j)"
    and "pc (sess s j) = Copied \<Longrightarrow> lock s = Some (Handler j)"
  using assms by (auto simp: lock_inv_def)

lemma lock_inv_step:
  assumes "lock_inv s"
  shows "lock_inv (step e a s)"
proof -
  note D = lock_invD [OF assms]
  from assms have H: "\<And>j. holds (pc (sess s j)) \<longrightarrow> lock s = Some (Handler j)"
    and W: "writer s \<noteq> WIdle \<longrightarrow> lock s = Some Producer"
    by (auto simp: lock_inv_def)
  show ?thesis
    unfolding lock_inv_def
  proof (intro conjI allI impI)
    show "lock (step e a s) = Some Producer" if "writer (step e a s) \<noteq> WIdle"
      using that W
      by (cases a) (auto simp: step_def  split: writer.splits if_splits dest: D)
  next
    fix j
    assume "holds (pc (sess (step e a s) j))"
    then show "lock (step e a s) = Some (Handler j)"
      using H [of j] W
      by (cases a) (auto simp: step_def split: writer.splits if_splits dest: D send_holds)
  qed
qed


lemma slot_inv_step: "slot_inv s \<Longrightarrow> slot_inv (step e a s)"
  by (cases a) (auto simp: slot_inv_def step_def split: writer.splits)

lemma send_in_wait: "in_wait (pc (send fails h)) \<Longrightarrow> send fails h = h"
  by (auto simp: send_def pending_def raise_in_def continue_def split: pc.splits list.splits stmt.splits if_splits)

lemma do_GET_in_wait [simp]: "\<not> in_wait (do_GET e hdr path)" "\<not> notified (do_GET e hdr path)"
  "do_GET e hdr path \<noteq> Waiting"
  by (simp_all add: do_GET_def)

lemma notified_in_wait: "notified p \<Longrightarrow> in_wait p"
  by (cases p) auto

lemma entry_ok_mono:
  "entry_ok s x \<Longrightarrow> published t = published s @ bs \<Longrightarrow> entry_ok t x"
  by (auto simp: entry_ok_def version_def nth_append)

lemma entry_ok_cong:
  "published t = published s \<Longrightarrow> entry_ok t x = entry_ok s x"
  by (auto simp: entry_ok_def version_def)

lemma published_step:
  "published (step e a s) = published s \<or> (\<exists>b. a = SetFrame \<and> writer s = WLocked b \<and> published (step e a s) = published s @ [b])"
  by (cases a) (auto simp: step_def split: writer.splits)

lemma entry_ok_step: "entry_ok s x \<Longrightarrow> entry_ok (step e a s) x"
  using published_step [of e a s] entry_ok_mono [of s x "step e a s"] entry_ok_cong [of "step e a s" s x]
  by auto

lemma version_step: "version s \<le> version (step e a s)"
  using published_step [of e a s] by (auto simp: version_def)


lemma sess_step_disj:
  "sess (step e a s) j = sess s j
   \<or> (a = NotifyAll \<and> writer s = WSet \<and> pc (sess s j) = Waiting
        \<and> sess (step e a s) j = (sess s j)\<lparr>pc := Notified\<rparr>)
   \<or> (\<exists>hdr path. a = Request j hdr path \<and> pc (sess s j) = Fresh
        \<and> sess (step e a s) j = (sess s j)\<lparr>pc := do_GET e hdr path\<rparr>)
   \<or> (\<exists>fails. a = Send j fails \<and> sess (step e a s) j = send fails (sess s j))
   \<or> (a = Enter j \<and> pc (sess s j) = LoopTop \<and> lock s = None
        \<and> sess (step e a s) j = (sess s j)\<lparr>pc := InWith\<rparr>)
   \<or> (a = Wait j \<and> pc (sess s j) = InWith
        \<and> sess (step e a s) j = (sess s j)\<lparr>pc := Waiting, wait_from := version s\<rparr>)
   \<or> (a = Wakeup j \<and> pc (sess s j) = Notified \<and> lock s = None
        \<and> sess (step e a s) j = (sess s j)\<lparr>pc := Woken\<rparr>)
   \<or> (a = Copy j \<and> pc (sess s j) = Woken
        \<and> sess (step e a s) j =
            (sess s j)\<lparr>pc := Copied, frame_var := frame s,
                        seen := seen (sess s j) @ [(version s, frame s)]\<rparr>)
   \<or> (a = Leave j \<and> pc (sess s j) = Copied
        \<and> sess (step e a s) j = (sess s j)\<lparr>pc := Part (part_stmts (frame_var (sess s j)))\<rparr>)"
  by (cases a) (auto simp: step_def split: writer.splits)

lemma sess_step_cases:
  obtains (same) "sess (step e a s) j = sess s j"
  | (notify) "a = NotifyAll" "writer s = WSet" "pc (sess s j) = Waiting"
      "sess (step e a s) j = (sess s j)\<lparr>pc := Notified\<rparr>"
  | (request) hdr path where "a = Request j hdr path" "pc (sess s j) = Fresh"
      "sess (step e a s) j = (sess s j)\<lparr>pc := do_GET e hdr path\<rparr>"
  | (send) fails where "a = Send j fails" "sess (step e a s) j = send fails (sess s j)"
  | (enter) "a = Enter j" "pc (sess s j) = LoopTop" "lock s = None"
      "sess (step e a s) j = (sess s j)\<lparr>pc := InWith\<rparr>"
  | (wait) "a = Wait j" "pc (sess s j) = InWith"
      "sess (step e a s) j = (sess s j)\<lparr>pc := Waiting, wait_from := version s\<rparr>"
  | (wakeup) "a = Wakeup j" "pc (sess s j) = Notified" "lock s = None"
      "sess (step e a s) j = (sess s j)\<lparr>pc := Woken\<rparr>"
  | (copy) "a = Copy j" "pc (sess s j) = Woken"
      "sess (step e a s) j =
         (sess s j)\<lparr>pc := Copied, frame_var := frame s,
                     seen := seen (sess s j) @ [(version s, frame s)]\<rparr>"
  | (leave) "a = Leave j" "pc (sess s j) = Copied"
      "sess (step e a s) j = (sess s j)\<lparr>pc := Part (part_stmts (frame_var (sess s j)))\<rparr>"
  using sess_step_disj [of e a s j]
  apply (elim disjE exE conjE)
          apply (erule same)
         apply (erule (3) notify)
        apply (erule (2) request)
       apply (erule (1) send)
      apply (erule (3) enter)
     apply (erule (2) wait)
    apply (erule (3) wakeup)
   apply (erule (2) copy)
  apply (erule (2) leave)
  done

lemma published_step_eq [simp]: "a \<noteq> SetFrame \<Longrightarrow> published (step e a s) = published s"
  by (cases a) (auto simp: step_def)

lemma frame_step_eq [simp]: "a \<noteq> SetFrame \<Longrightarrow> frame (step e a s) = frame s"
  by (cases a) (auto simp: step_def)

lemma version_step_eq [simp]: "a \<noteq> SetFrame \<Longrightarrow> version (step e a s) = version s"
  by (cases a) (auto simp: step_def version_def)

lemma writer_step_handler [simp]:
  "writer (step e (Request i hdr path) s) = writer s"
  "writer (step e (Send i fails) s) = writer s"
  "writer (step e (Enter i) s) = writer s"
  "writer (step e (Wait i) s) = writer s"
  "writer (step e (Wakeup i) s) = writer s"
  "writer (step e (Copy i) s) = writer s"
  "writer (step e (Leave i) s) = writer s"
  by (simp_all add: step_def)

lemma writer_step_notify [simp]:
  "writer s = WSet \<Longrightarrow> writer (step e NotifyAll s) = WNotified"
  by (simp add: step_def)

lemma writer_WSet_step:
  "writer (step e a s) = WSet \<Longrightarrow>
     (writer s = WSet \<and> version (step e a s) = version s) \<or>
     version (step e a s) = Suc (version s)"
  by (cases a) (auto simp: step_def version_def split: writer.splits if_splits)

lemma ver_inv_step:
  assumes L: "lock_inv s" and S: "slot_inv s" and V: "ver_inv s (sess s j)"
  shows "ver_inv (step e a s) (sess (step e a s) j)"
proof (cases rule: sess_step_cases [of e a s j])
  case same
  then show ?thesis
    using V version_step [of s e a] writer_WSet_step [of e a s]
    by (auto simp: ver_inv_def entry_ok_step)
next
  case notify
  then show ?thesis
    using V by (auto simp: ver_inv_def entry_ok_step)
next
  case (request hdr path)
  then show ?thesis
    using V by (auto simp: ver_inv_def entry_ok_step)
next
  case (send fails)
  then show ?thesis
    using V send_in_wait [of fails "sess s j"] notified_in_wait [of "pc (send fails (sess s j))"]
    by (auto simp: ver_inv_def entry_ok_step)
next
  case enter
  then show ?thesis
    using V by (auto simp: ver_inv_def entry_ok_step)
next
  case wait
  with lock_invD [OF L] have "writer s = WIdle" by auto
  moreover from V have "\<forall>x \<in> set (seen (sess s j)). fst x \<le> version s"
    by (auto simp: ver_inv_def entry_ok_def)
  ultimately show ?thesis
    using wait V by (auto simp: ver_inv_def entry_ok_step)
next
  case wakeup
  then show ?thesis
    using V by (auto simp: ver_inv_def entry_ok_step)
next
  case copy
  with V have pos: "0 < version s" by (auto simp: ver_inv_def)
  with S have fr: "frame s = Some (published s ! (version s - 1))"
    by (auto simp: slot_inv_def version_def last_conv_nth)
  have new: "entry_ok (step e a s) (version s, frame s)"
    using pos fr copy by (simp add: entry_ok_def)
  from copy new show ?thesis
    using V by (auto simp: ver_inv_def entry_ok_step)
next
  case leave
  then show ?thesis
    using V by (auto simp: ver_inv_def entry_ok_step)
qed


lemma increasing_step:
  assumes V: "ver_inv s (sess s j)" and M: "increasing (sess s j)"
  shows "increasing (sess (step e a s) j)"
proof (cases rule: sess_step_cases [of e a s j])
  case copy
  with V have "\<forall>x \<in> set (seen (sess s j)). fst x < version s"
    by (fastforce simp: ver_inv_def)
  with copy M show ?thesis
    by (auto simp: increasing_def sorted_wrt_append)
qed (use M in \<open>auto simp: increasing_def\<close>)

lemma frames_append [simp]: "frames (xs @ ys) = frames xs @ frames ys"
  by (induction xs rule: frames.induct) auto

lemma calls_map_Call [simp]: "calls (map Call evs) = evs"
  by (induction evs) auto

lemma sent_parts_simps [simp]:
  "sent_parts [] = []" "sent_parts (fs @ gs) = sent_parts fs @ sent_parts gs"
  "sent_parts [f] = part_events f"
  by (simp_all add: sent_parts_def)

lemma do_GET_trace: "trace_inv e (h\<lparr>pc := do_GET e hdr path\<rparr>)" if "conn h = []" "seen h = []"
  using that by (simp add: trace_inv_def do_GET_def replies_def)

lemma send_trace:
  assumes "trace_inv e h"
  shows "trace_inv e (send fails h)"
proof (cases "pending (pc h)")
  case Nil
  then show ?thesis using assms by (simp add: send_def)
next
  case (Cons x st)
  then consider (reply) st0 where "pc h = Reply st0" "st0 = x # st"
    | (head) st0 where "pc h = StreamHead st0" "st0 = x # st"
    | (part) st0 where "pc h = Part st0" "st0 = x # st"
    by (cases "pc h") (auto simp: pending_def)
  then show ?thesis
  proof cases
    case reply
    with assms Cons obtain ev where x: "x = Call ev" by (cases x) (auto simp: trace_inv_def)
    show ?thesis
    proof (cases fails)
      case True
      from reply x assms have "conn h @ ev # calls st \<in> replies e"
        by (auto simp: trace_inv_def)
      then have "\<exists>r \<in> replies e. prefix (conn h) r" by (metis prefixI)
      with True reply x assms show ?thesis
        by (auto simp: send_def pending_def raise_in_def trace_inv_def)
    next
      case False
      with reply x assms show ?thesis
        by (auto simp: send_def pending_def continue_def trace_inv_def)
    qed
  next
    case head
    with assms Cons obtain ev where x: "x = Call ev" by (cases x) (auto simp: trace_inv_def)
    show ?thesis
    proof (cases fails)
      case True
      from head x assms have "conn h @ ev # calls st = stream_head"
        by (auto simp: trace_inv_def)
      then have "prefix (conn h) stream_head" by (metis prefixI)
      with True head x assms show ?thesis
        by (auto simp: send_def pending_def raise_in_def trace_inv_def)
    next
      case False
      with head x assms show ?thesis
        by (auto simp: send_def pending_def continue_def trace_inv_def)
    qed
  next
    case part
    with assms Cons obtain ev where x: "x = Call ev" by (cases x) (auto simp: trace_inv_def)
    show ?thesis
    proof (cases fails)
      case True
      from part x assms
      have "conn h @ ev # calls st = stream_head @ sent_parts (frames (seen h))"
        by (auto simp: trace_inv_def)
      then have "prefix (conn h) (stream_head @ sent_parts (frames (seen h)))"
        by (metis prefixI)
      with True part x assms show ?thesis
        by (auto simp: send_def pending_def raise_in_def trace_inv_def)
    next
      case False
      with part x assms show ?thesis
        by (auto simp: send_def pending_def continue_def trace_inv_def)
    qed
  qed
qed


lemma trace_inv_step:
  assumes V: "ver_inv s (sess s j)" and T: "trace_inv e (sess s j)"
  shows "trace_inv e (sess (step e a s) j)"
proof (cases rule: sess_step_cases [of e a s j])
  case same
  with T show ?thesis by simp
next
  case notify
  with T show ?thesis by (simp add: trace_inv_def)
next
  case (request hdr path)
  with T have "conn (sess s j) = []" "seen (sess s j) = []"
    by (simp_all add: trace_inv_def)
  with request show ?thesis by (simp add: do_GET_trace)
next
  case (send fails)
  with T show ?thesis by (simp add: send_trace)
next
  case enter
  with T show ?thesis by (simp add: trace_inv_def)
next
  case wait
  with T show ?thesis by (simp add: trace_inv_def)
next
  case wakeup
  with T show ?thesis by (simp add: trace_inv_def)
next
  case copy
  with T show ?thesis by (simp add: trace_inv_def)
next
  case leave
  with T have ne: "seen (sess s j) \<noteq> []"
    and fv: "frame_var (sess s j) = snd (last (seen (sess s j)))"
    and co: "conn (sess s j) = stream_head @ sent_parts (frames (butlast (seen (sess s j))))"
    by (simp_all add: trace_inv_def)
  from ne V have "entry_ok s (last (seen (sess s j)))"
    by (simp add: ver_inv_def)
  then obtain v b where lst: "last (seen (sess s j)) = (v, Some b)"
    by (cases "last (seen (sess s j))") (auto simp: entry_ok_def)
  from ne have "seen (sess s j) = butlast (seen (sess s j)) @ [last (seen (sess s j))]"
    by simp
  then have "frames (seen (sess s j)) = frames (butlast (seen (sess s j))) @ [b]"
    using lst by (metis frames.simps(1,2) frames_append)
  with leave fv co lst show ?thesis
    by (simp add: trace_inv_def part_stmts_def)
qed

lemma inv_step:
  assumes "inv e s"
  shows "inv e (step e a s)"
  using assms
  by (simp add: inv_def lock_inv_step slot_inv_step ver_inv_step increasing_step trace_inv_step)

lemma inv_init: "inv e init"
  by (simp add: inv_def init_def init_session_def lock_inv_def slot_inv_def ver_inv_def
      increasing_def trace_inv_def)

lemma run_Nil [simp]: "run e [] s = s"
  by (simp add: run_def)

lemma run_Cons [simp]: "run e (a # acts) s = run e acts (step e a s)"
  by (simp add: run_def)

lemma run_append [simp]: "run e (xs @ ys) s = run e ys (run e xs s)"
  by (simp add: run_def)

lemma inv_run: "inv e s \<Longrightarrow> inv e (run e acts s)"
  by (induction acts arbitrary: s) (simp_all add: inv_step)

lemma inv_reachable: "inv e (run e acts init)"
  by (simp add: inv_run inv_init)


subsection \<open>Evaluation of sample schedules\<close>

lemma sample_auth_ok:
  "check_auth (env_cfg sample_env) (env_dec sample_env) (Some ''Basic YWRtaW46c2VjcmV0'')"
  by code_simp

lemma do_GET_sample [simp]:
  "do_GET sample_env (Some ''Basic YWRtaW46c2VjcmV0'') ''/stream.mjpg'' =
     StreamHead (map Call stream_head)"
  using sample_auth_ok by (simp add: do_GET_def)

lemma replicate6: "replicate 6 x = [x, x, x, x, x, x]"
  by (simp add: eval_nat_numeral)

lemmas exec_simps =
  step_def upd_def notify_all_def send_def pending_def continue_def raise_in_def
  part_stmts_def version_def init_def init_session_def publish_def replicate6
  stream_head_def part_events_def open_stream_def await_def deliver_def



lemma frames_subset:
  assumes "\<forall>x \<in> set xs. entry_ok s x"
  shows "set (frames xs) \<subseteq> set (published s)"
  using assms
proof (induction xs rule: frames.induct)
  case (2 v b xs)
  then have "entry_ok s (v, Some b)" by simp
  then have "b \<in> set (published s)"
    by (auto simp: entry_ok_def version_def intro: nth_mem)
  with 2 show ?case by simp
qed auto

text \<open>
  The source keeps no version number. The version of a frame is the number of
  assignments to \<open>output.frame\<close> made when the frame is read; the last version a handler
  has seen stands for the argument of \<open>WaitForNext\<close>.

  Claim C1, as stated, asks that the wait blocks until the held version exceeds the last
  version the handler has seen, and returns then. The wait of line 239 is for the next
  notification instead. In the schedule \<open>late_wait\<close> the handler has read version 1, the
  frames \<open>B\<close> and \<open>C\<close> are published while it sends its part, and it calls \<open>wait()\<close> when
  the slot holds version 3: it stays blocked although a newer frame than the one it has
  seen is held, it never reads version 3, and it reads version 4 once that is published.
\<close>

theorem wait_blocks_with_newer_frame_held:
  "seen (sess (run sample_env late_wait init) 0) = [(1, Some ''A'')]
   \<and> version (run sample_env late_wait init) = 3
   \<and> frame (run sample_env late_wait init) = Some ''C''
   \<and> lock (run sample_env late_wait init) = None
   \<and> pc (sess (run sample_env late_wait init) 0) = Waiting
   \<and> pc (sess (run sample_env (late_wait @ [Wakeup 0, Copy 0, Leave 0]) init) 0) = Waiting
   \<and> seen (sess (run sample_env (late_wait @ publish ''D'' @ [Wakeup 0, Copy 0]) init) 0) =
       [(1, Some ''A''), (4, Some ''D'')]"
  by (simp add: late_wait_def exec_simps)

lemma waiting_step:
  assumes "pc (sess s i) = Waiting"
  shows "sess (step e a s) i = sess s i \<or> sess (step e a s) i = (sess s i)\<lparr>pc := Notified\<rparr>"
  using sess_step_disj [of e a s i] assms by (auto simp: send_def pending_def)

lemma version_run: "version s \<le> version (run e acts s)"
proof (induction acts arbitrary: s)
  case Nil
  show ?case by simp
next
  case (Cons a acts)
  have "version s \<le> version (step e a s)" by (rule version_step)
  also have "\<dots> \<le> version (run e acts (step e a s))" by (rule Cons.IH)
  finally show ?case by simp
qed

text \<open>
  A handler inside \<open>wait()\<close> is still there, with the same starting version, as long as
  no frame has been published since its call.
\<close>

lemma waiting_until_published:
  assumes "inv e s" "pc (sess s i) = Waiting"
  shows "(pc (sess (run e acts s) i) = Waiting
            \<and> wait_from (sess (run e acts s) i) = wait_from (sess s i))
         \<or> wait_from (sess s i) < version (run e acts s)"
  using assms
proof (induction acts arbitrary: s)
  case Nil
  then show ?case by simp
next
  case (Cons a acts)
  let ?t = "step e a s"
  have I: "inv e ?t" using Cons.prems(1) by (rule inv_step)
  from waiting_step [OF Cons.prems(2), of e a]
  show ?case
  proof
    assume same: "sess ?t i = sess s i"
    with Cons.prems(2) have "pc (sess ?t i) = Waiting" by simp
    from Cons.IH [OF I this] same show ?thesis by simp
  next
    assume n: "sess ?t i = (sess s i)\<lparr>pc := Notified\<rparr>"
    from I have "ver_inv ?t (sess ?t i)" by (simp add: inv_def)
    with n have "wait_from (sess s i) < version ?t" by (simp add: ver_inv_def)
    also have "\<dots> \<le> version (run e acts ?t)" by (rule version_run)
    finally show ?thesis by simp
  qed
qed

text \<open>A publication releases a waiting handler, which then reads the new frame.\<close>

lemma publish_releases:
  assumes "pc (sess s i) = Waiting" "writer s = WIdle" "lock s = None"
  shows "pc (sess (run e (publish b @ [Wakeup i]) s) i) = Woken"
    and "pc (sess (run e (publish b @ [Wakeup i, Copy i]) s) i) = Copied"
    and "frame_var (sess (run e (publish b @ [Wakeup i, Copy i]) s) i) = Some b"
    and "seen (sess (run e (publish b @ [Wakeup i, Copy i]) s) i) =
           seen (sess s i) @ [(Suc (version s), Some b)]"
  using assms by (simp_all add: publish_def step_def notify_all_def upd_def version_def)

text \<open>
  Claim C1, amended. In every state the system can reach, under every schedule: the
  versions a handler has read are strictly increasing, each is the version of a published
  buffer and comes with that buffer; while a handler is inside \<open>wait()\<close> or has just left
  it, every version it has read is at most the version held at the call of \<open>wait()\<close>; a
  handler that has not been notified stays inside \<open>wait()\<close>; once it has been notified,
  the held version is strictly greater than the version held at the call; and line 240
  then reads the buffer of the held version. A handler inside \<open>wait()\<close> stays there under
  every continuation of the schedule as long as no frame has been published since its
  call. It is released by the next publication: \<open>notify_all()\<close> notifies it, a notified
  handler takes the lock as soon as the lock is free, and after one call of
  \<open>write(b)\<close> the handler wakes up and reads \<open>b\<close>, at the version that follows the one held
  at the call. So the wait blocks until a frame is published after the call of
  \<open>wait()\<close>, returns once that has happened, never returns before, and never hands out a
  version the handler has seen.
\<close>

theorem wait_returns_newer_frame:
  "let s = run e acts init; h = sess s i in
     sorted_wrt (<) (map fst (seen h))
     \<and> (\<forall>x \<in> set (seen h).
          0 < fst x \<and> fst x \<le> version s \<and> snd x = Some (published s ! (fst x - 1)))
     \<and> (in_wait (pc h) \<longrightarrow>
          (\<forall>x \<in> set (seen h). fst x \<le> wait_from h) \<and> wait_from h \<le> version s)
     \<and> (pc h = Waiting \<longrightarrow> pc (sess (step e (Wakeup i) s) i) = Waiting)
     \<and> (pc h = Notified \<or> pc h = Woken \<longrightarrow> wait_from h < version s)
     \<and> (pc h = Woken \<longrightarrow>
          seen (sess (step e (Copy i) s) i) =
            seen h @ [(version s, Some (published s ! (version s - 1)))])
     \<and> (pc h = Waiting \<longrightarrow>
          (\<forall>more. pc (sess (run e more s) i) = Waiting
                    \<or> wait_from h < version (run e more s)))
     \<and> (pc h = Waiting \<and> writer s = WSet \<longrightarrow>
          pc (sess (step e NotifyAll s) i) = Notified)
     \<and> (pc h = Notified \<and> lock s = None \<longrightarrow>
          pc (sess (step e (Wakeup i) s) i) = Woken)
     \<and> (pc h = Waiting \<and> writer s = WIdle \<and> lock s = None \<longrightarrow>
          (\<forall>b. pc (sess (run e (publish b @ [Wakeup i]) s) i) = Woken
             \<and> pc (sess (run e (publish b @ [Wakeup i, Copy i]) s) i) = Copied
             \<and> frame_var (sess (run e (publish b @ [Wakeup i, Copy i]) s) i) = Some b
             \<and> seen (sess (run e (publish b @ [Wakeup i, Copy i]) s) i) =
                 seen h @ [(Suc (version s), Some b)]))"
proof -
  define s where "s = run e acts init"
  define h where "h = sess s i"
  have I: "inv e s" unfolding s_def by (rule inv_reachable)
  then have V: "ver_inv s h" and M: "increasing h" and S: "slot_inv s"
    by (simp_all add: inv_def h_def)
  have 1: "sorted_wrt (<) (map fst (seen h))"
    using M by (simp add: increasing_def)
  have 2: "\<forall>x \<in> set (seen h).
          0 < fst x \<and> fst x \<le> version s \<and> snd x = Some (published s ! (fst x - 1))"
    using V by (simp add: ver_inv_def entry_ok_def)
  have 3: "in_wait (pc h) \<longrightarrow>
          (\<forall>x \<in> set (seen h). fst x \<le> wait_from h) \<and> wait_from h \<le> version s"
    using V by (simp add: ver_inv_def)
  have 4: "pc (sess (step e (Wakeup i) s) i) = Waiting" if "pc h = Waiting"
    using that by (simp add: step_def h_def)
  have 5: "wait_from h < version s" if "pc h = Notified \<or> pc h = Woken"
    using V that by (auto simp: ver_inv_def)
  have 6: "seen (sess (step e (Copy i) s) i) =
            seen h @ [(version s, Some (published s ! (version s - 1)))]" if w: "pc h = Woken"
  proof -
    from 5 w have "published s \<noteq> []" by (auto simp: version_def)
    with S have "frame s = Some (published s ! (version s - 1))"
      by (simp add: slot_inv_def version_def last_conv_nth)
    with w show ?thesis by (simp add: step_def h_def)
  qed
  have 7: "pc (sess (run e more s) i) = Waiting \<or> wait_from h < version (run e more s)"
    if "pc h = Waiting" for more
    using waiting_until_published [OF I, of i more] that by (auto simp: h_def)
  have 8: "pc (sess (step e NotifyAll s) i) = Notified" if "pc h = Waiting" "writer s = WSet"
    using that by (simp add: step_def notify_all_def h_def)
  have 9: "pc (sess (step e (Wakeup i) s) i) = Woken" if "pc h = Notified" "lock s = None"
    using that by (simp add: step_def upd_def h_def)
  have 10: "pc (sess (run e (publish b @ [Wakeup i]) s) i) = Woken
             \<and> pc (sess (run e (publish b @ [Wakeup i, Copy i]) s) i) = Copied
             \<and> frame_var (sess (run e (publish b @ [Wakeup i, Copy i]) s) i) = Some b
             \<and> seen (sess (run e (publish b @ [Wakeup i, Copy i]) s) i) =
                 seen h @ [(Suc (version s), Some b)]"
    if "pc h = Waiting" "writer s = WIdle" "lock s = None" for b
    using publish_releases [of s i e b] that by (simp only: h_def simp_thms)
  have a: "pc h = Waiting \<longrightarrow>
          (\<forall>more. pc (sess (run e more s) i) = Waiting
                    \<or> wait_from h < version (run e more s))"
    using 7 by blast
  have b: "pc h = Waiting \<and> writer s = WIdle \<and> lock s = None \<longrightarrow>
          (\<forall>b. pc (sess (run e (publish b @ [Wakeup i]) s) i) = Woken
             \<and> pc (sess (run e (publish b @ [Wakeup i, Copy i]) s) i) = Copied
             \<and> frame_var (sess (run e (publish b @ [Wakeup i, Copy i]) s) i) = Some b
             \<and> seen (sess (run e (publish b @ [Wakeup i, Copy i]) s) i) =
                 seen h @ [(Suc (version s), Some b)])"
    using 10 by blast
  have c4: "pc h = Waiting \<longrightarrow> pc (sess (step e (Wakeup i) s) i) = Waiting"
    using 4 by blast
  have c5: "pc h = Notified \<or> pc h = Woken \<longrightarrow> wait_from h < version s"
    using 5 by blast
  have c6: "pc h = Woken \<longrightarrow>
          seen (sess (step e (Copy i) s) i) =
            seen h @ [(version s, Some (published s ! (version s - 1)))]"
    using 6 by blast
  have c8: "pc h = Waiting \<and> writer s = WSet \<longrightarrow>
          pc (sess (step e NotifyAll s) i) = Notified"
    using 8 by blast
  have c9: "pc h = Notified \<and> lock s = None \<longrightarrow>
          pc (sess (step e (Wakeup i) s) i) = Woken"
    using 9 by blast
  show ?thesis
    unfolding s_def [symmetric] Let_def h_def [symmetric]
    by (rule conjI [OF 1 conjI [OF 2 conjI [OF 3 conjI [OF c4 conjI [OF c5 conjI [OF c6
          conjI [OF a conjI [OF c8 conjI [OF c9 b]]]]]]]]])
qed

theorem wait_returns_newer_frame_witness:
  "pc (sess (run sample_env two_rounds init) 0) = Woken
   \<and> seen (sess (run sample_env two_rounds init) 0) = [(1, Some ''A'')]
   \<and> wait_from (sess (run sample_env two_rounds init) 0) < version (run sample_env two_rounds init)
   \<and> seen (sess (step sample_env (Copy 0) (run sample_env two_rounds init)) 0) =
       [(1, Some ''A''), (3, Some ''C'')]
   \<and> pc (sess (run sample_env first_wait init) 0) = Waiting
   \<and> writer (run sample_env first_wait init) = WIdle
   \<and> lock (run sample_env first_wait init) = None
   \<and> pc (sess (run sample_env (publish ''A'' @ [Wakeup 0])
         (run sample_env first_wait init)) 0) = Woken
   \<and> seen (sess (run sample_env (publish ''A'' @ [Wakeup 0, Copy 0])
         (run sample_env first_wait init)) 0) = [(1, Some ''A'')]"
proof -
  have p: "pc (sess (run sample_env two_rounds init) 0) = Woken"
    by (simp add: two_rounds_def exec_simps)
  have q: "seen (sess (run sample_env two_rounds init) 0) = [(1, Some ''A'')]"
    by (simp add: two_rounds_def exec_simps)
  have r: "published (run sample_env two_rounds init) = [''A'', ''B'', ''C'']"
    by (simp add: two_rounds_def exec_simps)
  from r have v: "version (run sample_env two_rounds init) = 3"
    by (simp add: version_def)
  have w: "pc (sess (run sample_env first_wait init) 0) = Waiting"
    "writer (run sample_env first_wait init) = WIdle"
    "lock (run sample_env first_wait init) = None"
    "seen (sess (run sample_env first_wait init) 0) = []"
    "version (run sample_env first_wait init) = 0"
    by (simp_all add: first_wait_def exec_simps)
  have 1: "wait_from (sess (run sample_env two_rounds init) 0)
             < version (run sample_env two_rounds init)
           \<and> seen (sess (step sample_env (Copy 0) (run sample_env two_rounds init)) 0) =
               [(1, Some ''A''), (3, Some ''C'')]"
    using wait_returns_newer_frame [of sample_env two_rounds 0] p q r v
    by (simp add: Let_def)
  have 2: "pc (sess (run sample_env (publish ''A'' @ [Wakeup 0])
             (run sample_env first_wait init)) 0) = Woken
           \<and> seen (sess (run sample_env (publish ''A'' @ [Wakeup 0, Copy 0])
               (run sample_env first_wait init)) 0) = [(1, Some ''A'')]"
    using wait_returns_newer_frame [of sample_env first_wait 0] w
    by (simp add: Let_def del: run_Cons run_append)
  from p q w 1 2 show ?thesis by (simp only: simp_thms)
qed

text \<open>
  Claim C7. In every reachable state, what a handler has sent is a prefix of the stream
  head followed by whole parts, each part built from one buffer that has been passed to
  \<open>write\<close> (or a prefix of one of the three short responses). Every value a handler has
  read on line 240 is such a buffer, so is the value of \<open>frame\<close> when the \<open>with\<close> block is
  left, and the statements of a part in progress complete the part of such a buffer: the
  body is never \<open>None\<close>, never a piece of a buffer, never a mixture of two. While a
  handler reads the slot it owns the lock and the writer is outside \<open>write\<close>.
\<close>

theorem bodies_are_published_frames:
  "let s = run e acts init; h = sess s i in
     (\<exists>fs. set fs \<subseteq> set (published s) \<and>
        (prefix (conn h) (stream_head @ concat (map part_events fs))
         \<or> (\<exists>r \<in> replies e. prefix (conn h) r)))
     \<and> (\<forall>x \<in> set (seen h). \<exists>b \<in> set (published s). snd x = Some b)
     \<and> (pc h = Copied \<longrightarrow> (\<exists>b \<in> set (published s). frame_var h = Some b))
     \<and> (\<forall>st. pc h = Part st \<longrightarrow>
          (\<exists>fs. set fs \<subseteq> set (published s) \<and> st = map Call (calls st) \<and>
             conn h @ calls st = stream_head @ concat (map part_events fs)))
     \<and> (pc h = Woken \<or> pc h = Copied \<longrightarrow> lock s = Some (Handler i) \<and> writer s = WIdle)"
proof -
  define s where "s = run e acts init"
  define h where "h = sess s i"
  have I: "inv e s" unfolding s_def by (rule inv_reachable)
  then have V: "ver_inv s h" and T: "trace_inv e h" and L: "lock_inv s"
    by (simp_all add: inv_def h_def)
  have 5: "lock s = Some (Handler i) \<and> writer s = WIdle" if "pc h = Woken \<or> pc h = Copied"
  proof -
    from that L have "lock s = Some (Handler i)"
      unfolding h_def by (auto dest: lock_invD(3,4))
    moreover from this L have "writer s = WIdle"
      by (auto simp: lock_inv_def)
    ultimately show ?thesis by simp
  qed
  from V have E: "\<forall>x \<in> set (seen h). entry_ok s x" by (simp add: ver_inv_def)
  then have F: "set (frames (seen h)) \<subseteq> set (published s)" by (rule frames_subset)
  from E have "\<forall>x \<in> set (butlast (seen h)). entry_ok s x" by (auto dest: in_set_butlastD)
  then have G: "set (frames (butlast (seen h))) \<subseteq> set (published s)" by (rule frames_subset)
  have mem: "\<exists>b \<in> set (published s). snd x = Some b" if "x \<in> set (seen h)" for x
  proof -
    from E that have "entry_ok s x" by simp
    then show ?thesis by (auto simp: entry_ok_def version_def intro: nth_mem)
  qed
  have 1: "\<exists>fs. set fs \<subseteq> set (published s) \<and>
        (prefix (conn h) (stream_head @ concat (map part_events fs))
         \<or> (\<exists>r \<in> replies e. prefix (conn h) r))"
  proof (cases "pc h")
    case Fresh
    with T show ?thesis by (auto simp: trace_inv_def intro: exI [of _ "[]"])
  next
    case (Reply st)
    with T have "conn h @ calls st \<in> replies e" by (simp add: trace_inv_def)
    then have "\<exists>r \<in> replies e. prefix (conn h) r" by (metis prefixI)
    then show ?thesis by (auto intro: exI [of _ "[]"])
  next
    case (StreamHead st)
    with T have "conn h @ calls st = stream_head" by (simp add: trace_inv_def)
    then have "prefix (conn h) (stream_head @ concat (map part_events []))"
      by (metis append_Nil2 concat.simps(1) list.simps(8) prefixI)
    then show ?thesis by (metis empty_set empty_subsetI)
  next
    case Copied
    with T have "conn h = stream_head @ sent_parts (frames (butlast (seen h)))"
      by (simp add: trace_inv_def)
    with G show ?thesis unfolding sent_parts_def by (metis prefix_order.order_refl)
  next
    case (Part st)
    with T have "conn h @ calls st = stream_head @ sent_parts (frames (seen h))"
      by (simp add: trace_inv_def)
    then have "prefix (conn h) (stream_head @ sent_parts (frames (seen h)))"
      by (metis prefixI)
    with F show ?thesis unfolding sent_parts_def by blast
  next
    case Done
    with T have "conn h \<in> replies e" by (simp add: trace_inv_def)
    then have "\<exists>r \<in> replies e. prefix (conn h) r" by (metis prefix_order.order_refl)
    then show ?thesis by (auto intro: exI [of _ "[]"])
  next
    case Closed
    with T have "prefix (conn h) (stream_head @ sent_parts (frames (seen h)))"
      by (simp add: trace_inv_def)
    with F show ?thesis unfolding sent_parts_def by blast
  next
    case (Raised x)
    with T have "\<exists>r \<in> insert stream_head (replies e). prefix (conn h) r"
      by (simp add: trace_inv_def)
    then consider "prefix (conn h) stream_head" | "\<exists>r \<in> replies e. prefix (conn h) r"
      by auto
    then show ?thesis
    proof cases
      case 1
      then have "prefix (conn h) (stream_head @ concat (map part_events []))" by simp
      then show ?thesis by (metis empty_set empty_subsetI)
    next
      case 2
      then show ?thesis by (auto intro: exI [of _ "[]"])
    qed
  next
    case LoopTop
    with T have "conn h = stream_head @ sent_parts (frames (seen h))"
      by (simp add: trace_inv_def)
    with F show ?thesis unfolding sent_parts_def by (metis prefix_order.order_refl)
  next
    case InWith
    with T have "conn h = stream_head @ sent_parts (frames (seen h))"
      by (simp add: trace_inv_def)
    with F show ?thesis unfolding sent_parts_def by (metis prefix_order.order_refl)
  next
    case Waiting
    with T have "conn h = stream_head @ sent_parts (frames (seen h))"
      by (simp add: trace_inv_def)
    with F show ?thesis unfolding sent_parts_def by (metis prefix_order.order_refl)
  next
    case Notified
    with T have "conn h = stream_head @ sent_parts (frames (seen h))"
      by (simp add: trace_inv_def)
    with F show ?thesis unfolding sent_parts_def by (metis prefix_order.order_refl)
  next
    case Woken
    with T have "conn h = stream_head @ sent_parts (frames (seen h))"
      by (simp add: trace_inv_def)
    with F show ?thesis unfolding sent_parts_def by (metis prefix_order.order_refl)
  qed
  have 2: "\<forall>x \<in> set (seen h). \<exists>b \<in> set (published s). snd x = Some b"
    using mem by blast
  have 3: "\<exists>b \<in> set (published s). frame_var h = Some b" if "pc h = Copied"
  proof -
    from T that have "seen h \<noteq> []" "frame_var h = snd (last (seen h))"
      by (simp_all add: trace_inv_def)
    with mem [of "last (seen h)"] show ?thesis by simp
  qed
  have 4: "\<exists>fs. set fs \<subseteq> set (published s) \<and> st = map Call (calls st) \<and>
             conn h @ calls st = stream_head @ concat (map part_events fs)" if "pc h = Part st" for st
  proof -
    from T that have "st = map Call (calls st)"
      "conn h @ calls st = stream_head @ sent_parts (frames (seen h))"
      by (simp_all add: trace_inv_def)
    with F show ?thesis unfolding sent_parts_def by blast
  qed
  from 1 2 3 4 5 show ?thesis
    unfolding s_def [symmetric] Let_def h_def [symmetric] by blast
qed


theorem bodies_are_published_frames_witness:
  "pc (sess (run sample_env (two_rounds @ [Copy 0]) init) 0) = Copied
   \<and> published (run sample_env (two_rounds @ [Copy 0]) init) = [''A'', ''B'', ''C'']
   \<and> (\<exists>b \<in> set [''A'', ''B'', ''C''].
        frame_var (sess (run sample_env (two_rounds @ [Copy 0]) init) 0) = Some b)
   \<and> (\<exists>b \<in> set [''A'', ''B'', ''C''].
        snd (hd (seen (sess (run sample_env (two_rounds @ [Copy 0]) init) 0))) = Some b)"
proof -
  have p: "pc (sess (run sample_env (two_rounds @ [Copy 0]) init) 0) = Copied"
    by (simp add: two_rounds_def exec_simps)
  have r: "published (run sample_env (two_rounds @ [Copy 0]) init) = [''A'', ''B'', ''C'']"
    by (simp add: two_rounds_def exec_simps)
  have q: "seen (sess (run sample_env (two_rounds @ [Copy 0]) init) 0) =
      [(1, Some ''A''), (3, Some ''C'')]"
    by (simp add: two_rounds_def exec_simps)
  show ?thesis
    using bodies_are_published_frames [of sample_env "two_rounds @ [Copy 0]" 0] p r q
    by (simp add: Let_def)
qed

subsection \<open>Publishing\<close>

lemma run_publish:
  assumes "writer s = WIdle" "lock s = None"
  shows "writer (run e (publish b) s) = WIdle"
    and "lock (run e (publish b) s) = None"
    and "frame (run e (publish b) s) = Some b"
    and "published (run e (publish b) s) = published s @ [b]"
    and "sess (run e (publish b) s) j =
           (if pc (sess s j) = Waiting then (sess s j)\<lparr>pc := Notified\<rparr> else sess s j)"
  using assms by (simp_all add: publish_def step_def notify_all_def)

lemma run_publishes:
  assumes "writer s = WIdle" "lock s = None"
  shows "writer (run e (concat (map publish bs)) s) = WIdle
       \<and> lock (run e (concat (map publish bs)) s) = None
       \<and> published (run e (concat (map publish bs)) s) = published s @ bs
       \<and> (bs \<noteq> [] \<longrightarrow> frame (run e (concat (map publish bs)) s) = Some (last bs))
       \<and> sess (run e (concat (map publish bs)) s) j =
           (if bs \<noteq> [] \<and> pc (sess s j) = Waiting then (sess s j)\<lparr>pc := Notified\<rparr>
            else sess s j)"
  using assms
proof (induction bs arbitrary: s)
  case Nil
  then show ?case by simp
next
  case (Cons b bs)
  let ?t = "run e (publish b) s"
  note P = run_publish [OF Cons.prems, of e b]
  from Cons.IH [OF P(1) P(2)] P(3,4) P(5) [of j]
  show ?case by (cases bs) (auto simp del: run_Cons)
qed

lemma woken_reads_last:
  assumes "inv e s" "pc (sess s i) = Woken"
  shows "published s \<noteq> []"
    and "frame_var (sess (step e (Copy i) s) i) = Some (last (published s))"
proof -
  from assms have "wait_from (sess s i) < version s"
    by (simp add: inv_def ver_inv_def)
  then show ne: "published s \<noteq> []" by (auto simp: version_def)
  from assms(1) have "slot_inv s" by (simp add: inv_def)
  with ne assms(2) show "frame_var (sess (step e (Copy i) s) i) = Some (last (published s))"
    by (simp add: slot_inv_def step_def)
qed

text \<open>
  Claim C3. Let a handler wait, the writer be idle and the lock free. After any number
  \<open>N > 0\<close> of complete calls of \<open>write\<close>, with no step of the handler in between, the
  handler that wakes reads exactly the buffer of the last call, with the version of that
  call: one entry is added to what it has read, and nothing for the intermediate buffers.
  Under every schedule, a handler whose \<open>wait()\<close> has returned reads on line 240 the
  buffer of the last assignment to \<open>output.frame\<close>.
\<close>

theorem publishes_coalesce:
  "(writer s = WIdle \<and> lock s = None \<and> (pc (sess s i) = Waiting \<or> pc (sess s i) = Notified)
      \<and> bs \<noteq> [] \<longrightarrow>
    (let t = run e (concat (map publish bs) @ [Wakeup i, Copy i]) s in
       pc (sess t i) = Copied
       \<and> frame_var (sess t i) = Some (last bs)
       \<and> seen (sess t i) = seen (sess s i) @ [(version s + length bs, Some (last bs))]
       \<and> conn (sess t i) = conn (sess s i)))
   \<and> (let r = run e acts init in
        pc (sess r i) = Woken \<longrightarrow>
          published r \<noteq> [] \<and>
          frame_var (sess (step e (Copy i) r) i) = Some (last (published r)))"
proof -
  have 1: "let t = run e (concat (map publish bs) @ [Wakeup i, Copy i]) s in
      pc (sess t i) = Copied
      \<and> frame_var (sess t i) = Some (last bs)
      \<and> seen (sess t i) = seen (sess s i) @ [(version s + length bs, Some (last bs))]
      \<and> conn (sess t i) = conn (sess s i)"
    if a: "writer s = WIdle" "lock s = None" "bs \<noteq> []"
      and w: "pc (sess s i) = Waiting \<or> pc (sess s i) = Notified"
  proof -
    let ?u = "run e (concat (map publish bs)) s"
    from run_publishes [OF a(1,2), of e bs i] a(3) w
    have u: "lock ?u = None" "published ?u = published s @ bs" "frame ?u = Some (last bs)"
      "sess ?u i = (sess s i)\<lparr>pc := Notified\<rparr>"
      by auto
    then show ?thesis by (simp add: Let_def step_def version_def)
  qed
  have 2: "published (run e acts init) \<noteq> [] \<and>
          frame_var (sess (step e (Copy i) (run e acts init)) i) =
            Some (last (published (run e acts init)))"
    if "pc (sess (run e acts init) i) = Woken"
    using woken_reads_last [OF inv_reachable that] by blast
  from 1 2 show ?thesis unfolding Let_def by blast
qed

theorem publishes_coalesce_witness:
  "writer (run sample_env first_wait init) = WIdle
   \<and> lock (run sample_env first_wait init) = None
   \<and> pc (sess (run sample_env first_wait init) 0) = Waiting
   \<and> frame_var (sess (run sample_env
        (concat (map publish [''A'', ''B'', ''C'']) @ [Wakeup 0, Copy 0])
        (run sample_env first_wait init)) 0) = Some ''C''
   \<and> seen (sess (run sample_env
        (concat (map publish [''A'', ''B'', ''C'']) @ [Wakeup 0, Copy 0])
        (run sample_env first_wait init)) 0) = [(3, Some ''C'')]
   \<and> pc (sess (run sample_env two_rounds init) 0) = Woken
   \<and> frame_var (sess (step sample_env (Copy 0) (run sample_env two_rounds init)) 0) = Some ''C''"
proof -
  have a: "writer (run sample_env first_wait init) = WIdle"
    "lock (run sample_env first_wait init) = None"
    "pc (sess (run sample_env first_wait init) 0) = Waiting"
    "seen (sess (run sample_env first_wait init) 0) = []"
    "version (run sample_env first_wait init) = 0"
    by (simp_all add: first_wait_def exec_simps)
  have b: "pc (sess (run sample_env two_rounds init) 0) = Woken"
    "published (run sample_env two_rounds init) = [''A'', ''B'', ''C'']"
    by (simp_all add: two_rounds_def exec_simps)
  show ?thesis
    using publishes_coalesce [of "run sample_env first_wait init" 0 "[''A'', ''B'', ''C'']"
        sample_env two_rounds] a b
    by (simp add: Let_def del: run_Cons run_append)
qed

subsection \<open>The parts of the stream\<close>

lemma decimal_snoc: "decimal (ds @ [c]) = 10 * decimal ds + digit_val c"
  by (simp add: decimal_def)

lemma digit_val_digit: "d < 10 \<Longrightarrow> digit_val (digit d) = d"
  by (simp add: digit_val_def digit_def)

lemma decimal_str: "decimal (str n) = n"
proof (induction n rule: str.induct)
  case (1 n)
  show ?case
  proof (cases "n < 10")
    case True
    then show ?thesis
      by (subst str.simps) (simp add: decimal_def digit_val_digit)
  next
    case False
    with 1 have "decimal (str (n div 10)) = n div 10" by simp
    with False show ?thesis
      by (subst str.simps) (simp add: decimal_snoc digit_val_digit)
  qed
qed

lemma digit_values:
  "digit 0 = CHR ''0''" "digit 1 = CHR ''1''" "digit 2 = CHR ''2''" "digit 3 = CHR ''3''"
  "digit 4 = CHR ''4''" "digit 5 = CHR ''5''" "digit 6 = CHR ''6''" "digit 7 = CHR ''7''"
  "digit 8 = CHR ''8''" "digit 9 = CHR ''9''"
  by code_simp+

lemma below_10: "d < 10 \<Longrightarrow> d \<in> {0, 1, 2, 3, 4, 5, 6, 7, 8, 9::nat}"
  by auto

lemma digit_in: "d < 10 \<Longrightarrow> digit d \<in> set ''0123456789''"
  using below_10 [of d] digit_values by auto

lemma digit_zero: "d < 10 \<Longrightarrow> digit d = CHR ''0'' \<Longrightarrow> d = 0"
  using digit_val_digit [of d] digit_val_digit [of 0] digit_values(1) by simp

lemma str_digits: "str n \<noteq> [] \<and> set (str n) \<subseteq> set ''0123456789''"
proof (induction n rule: str.induct)
  case (1 n)
  show ?case
  proof (cases "n < 10")
    case True
    with digit_in [of n] show ?thesis by (subst (1 2) str.simps) simp
  next
    case False
    with 1 have "set (str (n div 10)) \<subseteq> set ''0123456789''" by simp
    moreover have "digit (n mod 10) \<in> set ''0123456789''" by (rule digit_in) simp
    ultimately show ?thesis using False by (subst (1 2) str.simps) simp
  qed
qed

lemma str_no_leading_zero: "hd (str n) = CHR ''0'' \<Longrightarrow> n = 0"
proof (induction n rule: str.induct)
  case (1 n)
  show ?case
  proof (cases "n < 10")
    case True
    with 1(2) have "digit n = CHR ''0''" by (subst (asm) str.simps) simp
    with True show ?thesis by (rule digit_zero)
  next
    case False
    have "str (n div 10) \<noteq> []" using str_digits by blast
    with 1(2) False have "hd (str (n div 10)) = CHR ''0''"
      by (subst (asm) str.simps) simp
    with 1(1) False have "n div 10 = 0" by simp
    with False show ?thesis by simp
  qed
qed

lemma str_samples: "str 0 = ''0''" "str 1 = ''1''" "str 7 = ''7''" "str 10 = ''10''"
  "str 4096 = ''4096''"
  by code_simp+

lemma str_Suc_0: "str (Suc 0) = ''1''"
  using str_samples(2) by simp

lemma run_part:
  assumes "pc (sess s i) = Copied" "frame_var (sess s i) = Some f"
  shows "conn (sess (run e (Leave i # replicate 6 (Send i False)) s) i) =
           conn (sess s i) @ part_events f"
    and "pc (sess (run e (Leave i # replicate 6 (Send i False)) s) i) = LoopTop"
  using assms
  by (simp_all add: replicate6 step_def upd_def send_def pending_def continue_def
      part_stmts_def part_events_def)

lemma copied_frame:
  assumes "inv e s" "pc (sess s i) = Copied"
  shows "\<exists>b \<in> set (published s). frame_var (sess s i) = Some b"
proof -
  from assms have V: "ver_inv s (sess s i)" and T: "trace_inv e (sess s i)"
    by (simp_all add: inv_def)
  from T assms(2) have ne: "seen (sess s i) \<noteq> []"
    and fv: "frame_var (sess s i) = snd (last (seen (sess s i)))"
    by (simp_all add: trace_inv_def)
  from V ne have "entry_ok s (last (seen (sess s i)))" by (simp add: ver_inv_def)
  with fv show ?thesis by (auto simp: entry_ok_def version_def intro: nth_mem)
qed

lemma frames_all_Some:
  "\<forall>x \<in> set xs. \<exists>b. snd x = Some b \<Longrightarrow> map Some (frames xs) = map snd xs"
  by (induction xs rule: frames.induct) auto

lemma looptop_parts:
  assumes "inv e s" "pc (sess s i) = LoopTop"
  shows "conn (sess s i) = stream_head @ concat (map part_events (frames (seen (sess s i))))"
    and "map Some (frames (seen (sess s i))) = map snd (seen (sess s i))"
proof -
  from assms have V: "ver_inv s (sess s i)" and T: "trace_inv e (sess s i)"
    by (simp_all add: inv_def)
  from T assms(2) show "conn (sess s i) =
      stream_head @ concat (map part_events (frames (seen (sess s i))))"
    by (simp add: trace_inv_def sent_parts_def)
  from V have "\<forall>x \<in> set (seen (sess s i)). \<exists>b. snd x = Some b"
    by (auto simp: ver_inv_def entry_ok_def)
  then show "map Some (frames (seen (sess s i))) = map snd (seen (sess s i))"
    by (rule frames_all_Some)
qed

text \<open>
  Claim C4. For a frame \<open>f\<close>, the pass through lines 242 to 247 makes six calls, in this
  order: a write of the nine bytes \<open>--FRAME\<close>, CR, LF; the header
  \<open>Content-Type: image/jpeg\<close>; the header \<open>Content-Length\<close> whose value is the decimal
  numeral of the length of \<open>f\<close> (not empty, made of the characters \<open>0\<close> to \<open>9\<close> only, with
  no leading zero unless the length is 0, and with that length as its value);
  \<open>end_headers()\<close> for the blank line; a write of \<open>f\<close> itself; and a write of the two bytes
  CR, LF. A handler that has read \<open>f\<close> and whose calls do not raise appends exactly these
  calls to its connection and is back at the top of the loop. In every reachable state a
  handler that has just read the slot holds a published buffer, and a handler at the top
  of the loop has sent the head of the stream followed by exactly one part for each read
  of the slot, in the order of the reads.
\<close>

theorem one_part_per_frame:
  "part_events f =
     [WfileWrite [CHR ''-'', CHR ''-'', CHR ''F'', CHR ''R'', CHR ''A'', CHR ''M'', CHR ''E'',
                  CHR 0x0D, CHR 0x0A],
      SendHeader ''Content-Type'' ''image/jpeg'',
      SendHeader ''Content-Length'' (str (length f)),
      EndHeaders,
      WfileWrite f,
      WfileWrite [CHR 0x0D, CHR 0x0A]]
   \<and> (str (length f) \<noteq> [] \<and> set (str (length f)) \<subseteq> set ''0123456789''
        \<and> (hd (str (length f)) = CHR ''0'' \<longrightarrow> length f = 0)
        \<and> decimal (str (length f)) = length f)
   \<and> (pc (sess s i) = Copied \<and> frame_var (sess s i) = Some f \<longrightarrow>
        (let t = run e (Leave i # replicate 6 (Send i False)) s in
           conn (sess t i) = conn (sess s i) @
             [WfileWrite [CHR ''-'', CHR ''-'', CHR ''F'', CHR ''R'', CHR ''A'', CHR ''M'',
                          CHR ''E'', CHR 0x0D, CHR 0x0A],
              SendHeader ''Content-Type'' ''image/jpeg'',
              SendHeader ''Content-Length'' (str (length f)),
              EndHeaders,
              WfileWrite f,
              WfileWrite [CHR 0x0D, CHR 0x0A]]
           \<and> pc (sess t i) = LoopTop))
   \<and> (let r = run e acts init in
        (pc (sess r i) = Copied \<longrightarrow>
           (\<exists>b \<in> set (published r). frame_var (sess r i) = Some b))
        \<and> (pc (sess r i) = LoopTop \<longrightarrow>
             conn (sess r i) =
               stream_head @ concat (map part_events (frames (seen (sess r i))))
             \<and> map Some (frames (seen (sess r i))) = map snd (seen (sess r i))))"
proof -
  have 0: "part_events f =
     [WfileWrite [CHR ''-'', CHR ''-'', CHR ''F'', CHR ''R'', CHR ''A'', CHR ''M'', CHR ''E'',
                  CHR 0x0D, CHR 0x0A],
      SendHeader ''Content-Type'' ''image/jpeg'',
      SendHeader ''Content-Length'' (str (length f)),
      EndHeaders,
      WfileWrite f,
      WfileWrite [CHR 0x0D, CHR 0x0A]]"
    by (simp add: part_events_def CRLF_def)
  have 1: "conn (sess (run e (Leave i # replicate 6 (Send i False)) s) i) =
             conn (sess s i) @ part_events f
           \<and> pc (sess (run e (Leave i # replicate 6 (Send i False)) s) i) = LoopTop"
    if "pc (sess s i) = Copied" "frame_var (sess s i) = Some f"
    using run_part [OF that] by blast
  have 2: "\<exists>b \<in> set (published (run e acts init)).
             frame_var (sess (run e acts init) i) = Some b"
    if "pc (sess (run e acts init) i) = Copied"
    using copied_frame [OF inv_reachable that] .
  have 3: "conn (sess (run e acts init) i) =
             stream_head @ concat (map part_events (frames (seen (sess (run e acts init) i))))
           \<and> map Some (frames (seen (sess (run e acts init) i))) =
               map snd (seen (sess (run e acts init) i))"
    if "pc (sess (run e acts init) i) = LoopTop"
    using looptop_parts [OF inv_reachable that] by blast
  have 4: "str (length f) \<noteq> [] \<and> set (str (length f)) \<subseteq> set ''0123456789''
        \<and> (hd (str (length f)) = CHR ''0'' \<longrightarrow> length f = 0)
        \<and> decimal (str (length f)) = length f"
    using str_digits [of "length f"] str_no_leading_zero [of "length f"] decimal_str
    by blast
  from 1 have p1: "pc (sess s i) = Copied \<and> frame_var (sess s i) = Some f \<longrightarrow>
        (let t = run e (Leave i # replicate 6 (Send i False)) s in
           conn (sess t i) = conn (sess s i) @ part_events f \<and> pc (sess t i) = LoopTop)"
    unfolding Let_def by blast
  from 2 3 have 23: "(let r = run e acts init in
        (pc (sess r i) = Copied \<longrightarrow>
           (\<exists>b \<in> set (published r). frame_var (sess r i) = Some b))
        \<and> (pc (sess r i) = LoopTop \<longrightarrow>
             conn (sess r i) =
               stream_head @ concat (map part_events (frames (seen (sess r i))))
             \<and> map Some (frames (seen (sess r i))) = map snd (seen (sess r i))))"
    unfolding Let_def by blast
  note p2 = p1 [unfolded 0]
  show ?thesis by (rule conjI [OF 0 conjI [OF 4 conjI [OF p2 23]]])
qed

theorem one_part_per_frame_witness:
  "pc (sess (run sample_env (two_rounds @ [Copy 0]) init) 0) = Copied
   \<and> frame_var (sess (run sample_env (two_rounds @ [Copy 0]) init) 0) = Some ''C''
   \<and> conn (sess (run sample_env (Leave 0 # replicate 6 (Send 0 False))
        (run sample_env (two_rounds @ [Copy 0]) init)) 0) =
       stream_head @
       [WfileWrite [CHR ''-'', CHR ''-'', CHR ''F'', CHR ''R'', CHR ''A'', CHR ''M'',
                    CHR ''E'', CHR 0x0D, CHR 0x0A],
        SendHeader ''Content-Type'' ''image/jpeg'',
        SendHeader ''Content-Length'' ''1'',
        EndHeaders,
        WfileWrite ''A'',
        WfileWrite [CHR 0x0D, CHR 0x0A],
        WfileWrite [CHR ''-'', CHR ''-'', CHR ''F'', CHR ''R'', CHR ''A'', CHR ''M'',
                    CHR ''E'', CHR 0x0D, CHR 0x0A],
        SendHeader ''Content-Type'' ''image/jpeg'',
        SendHeader ''Content-Length'' ''1'',
        EndHeaders,
        WfileWrite ''C'',
        WfileWrite [CHR 0x0D, CHR 0x0A]]
   \<and> pc (sess (run sample_env (Leave 0 # replicate 6 (Send 0 False))
        (run sample_env (two_rounds @ [Copy 0]) init)) 0) = LoopTop"
proof -
  have a: "pc (sess (run sample_env (two_rounds @ [Copy 0]) init) 0) = Copied"
    "frame_var (sess (run sample_env (two_rounds @ [Copy 0]) init) 0) = Some ''C''"
    "conn (sess (run sample_env (two_rounds @ [Copy 0]) init) 0) =
       stream_head @
       [WfileWrite [CHR ''-'', CHR ''-'', CHR ''F'', CHR ''R'', CHR ''A'', CHR ''M'',
                    CHR ''E'', CHR 0x0D, CHR 0x0A],
        SendHeader ''Content-Type'' ''image/jpeg'',
        SendHeader ''Content-Length'' ''1'',
        EndHeaders,
        WfileWrite ''A'',
        WfileWrite [CHR 0x0D, CHR 0x0A]]"
    by (simp_all add: two_rounds_def exec_simps CRLF_def str_Suc_0)
  have b: "length ''C'' = 1" by simp
  show ?thesis
    using one_part_per_frame [of "''C''" "run sample_env (two_rounds @ [Copy 0]) init" 0
        sample_env "two_rounds @ [Copy 0]", THEN conjunct2, THEN conjunct2, THEN conjunct1] a
    by (simp add: Let_def str_Suc_0 del: run_Cons run_append)
qed

subsection \<open>Handlers outside the stream, and handlers that have ended\<close>

lemma terminal_pending: "terminal p \<Longrightarrow> pending p = []"
  by (cases p) (simp_all add: pending_def)

lemma terminal_step:
  assumes "terminal (pc (sess s i))"
  shows "sess (step e a s) i = sess s i"
proof (cases rule: sess_step_cases [of e a s i])
  case (send fails)
  with assms show ?thesis by (simp add: send_def terminal_pending)
qed (use assms in auto)

lemma terminal_run: "terminal (pc (sess s i)) \<Longrightarrow> sess (run e acts s) i = sess s i"
  by (induction acts arbitrary: s) (simp_all add: terminal_step)

lemma send_conn_fail: "conn (send True h) = conn h"
  by (auto simp: send_def split: list.splits stmt.splits)

lemma replying_send:
  assumes "replying c0 evs h"
  shows "replying c0 evs (send fails h)"
proof -
  from assms obtain k where k: "k \<le> length evs" "conn h = c0 @ take k evs"
    and c: "(k < length evs \<and> pc h = Reply (map Call (drop k evs)))
         \<or> (k = length evs \<and> pc h = Done) \<or> pc h = Raised OSError"
    by (auto simp: replying_def)
  from c consider (run) "k < length evs" "pc h = Reply (map Call (drop k evs))"
    | (ended) "terminal (pc h)" by auto
  then show ?thesis
  proof cases
    case ended
    then have "send fails h = h" by (simp add: send_def terminal_pending)
    with assms show ?thesis by simp
  next
    case run
    then have d: "drop k evs = evs ! k # drop (Suc k) evs"
      by (simp add: Cons_nth_drop_Suc)
    show ?thesis
    proof (cases fails)
      case True
      with run d have "send fails h = h\<lparr>pc := Raised OSError\<rparr>"
        by (simp add: send_def pending_def raise_in_def)
      with k show ?thesis
        unfolding replying_def by (intro exI [of _ k]) simp
    next
      case False
      from run have t: "take (Suc k) evs = take k evs @ [evs ! k]"
        by (simp add: take_Suc_conv_app_nth)
      have "replying c0 evs (h\<lparr>pc := continue (pc h) (map Call (drop (Suc k) evs)),
                               conn := conn h @ [evs ! k]\<rparr>)"
        unfolding replying_def
      proof (intro exI [of _ "Suc k"] conjI)
        show "Suc k \<le> length evs" using run by simp
        show "conn (h\<lparr>pc := continue (pc h) (map Call (drop (Suc k) evs)),
                      conn := conn h @ [evs ! k]\<rparr>) = c0 @ take (Suc k) evs"
          using k t by simp
        show "(Suc k < length evs \<and>
               pc (h\<lparr>pc := continue (pc h) (map Call (drop (Suc k) evs)),
                     conn := conn h @ [evs ! k]\<rparr>) = Reply (map Call (drop (Suc k) evs)))
            \<or> (Suc k = length evs \<and>
               pc (h\<lparr>pc := continue (pc h) (map Call (drop (Suc k) evs)),
                     conn := conn h @ [evs ! k]\<rparr>) = Done)
            \<or> pc (h\<lparr>pc := continue (pc h) (map Call (drop (Suc k) evs)),
                     conn := conn h @ [evs ! k]\<rparr>) = Raised OSError"
          using run by (cases "Suc k < length evs") (auto simp: continue_def)
      qed
      with False run d show ?thesis
        by (simp add: send_def pending_def)
    qed
  qed
qed

lemma replying_off_stream: "replying c0 evs h \<Longrightarrow> off_stream (pc h)"
  by (auto simp: replying_def)

lemma off_stream_step:
  assumes "off_stream (pc (sess s i))"
  shows "sess (step e a s) i = sess s i \<or> (\<exists>fails. sess (step e a s) i = send fails (sess s i))"
proof (cases rule: sess_step_cases [of e a s i])
  case (send fails)
  then show ?thesis by blast
qed (use assms in auto)

lemma replying_step:
  assumes "replying c0 evs (sess s i)"
  shows "replying c0 evs (sess (step e a s) i)
       \<and> seen (sess (step e a s) i) = seen (sess s i)
       \<and> wait_from (sess (step e a s) i) = wait_from (sess s i)
       \<and> frame_var (sess (step e a s) i) = frame_var (sess s i)"
  using off_stream_step [OF replying_off_stream [OF assms], of e a] assms
  by (auto simp: replying_send)

lemma replying_run:
  assumes "replying c0 evs (sess s i)"
  shows "replying c0 evs (sess (run e acts s) i)
       \<and> seen (sess (run e acts s) i) = seen (sess s i)
       \<and> wait_from (sess (run e acts s) i) = wait_from (sess s i)
       \<and> frame_var (sess (run e acts s) i) = frame_var (sess s i)"
  using assms
proof (induction acts arbitrary: s)
  case Nil
  then show ?case by simp
next
  case (Cons a acts)
  from replying_step [OF Cons.prems, of e a] Cons.IH [of "step e a s"]
  show ?case by simp
qed

lemma replying_start:
  "evs \<noteq> [] \<Longrightarrow> replying (conn h) evs (h\<lparr>pc := Reply (map Call evs)\<rparr>)"
  by (auto simp: replying_def intro: exI [of _ 0])

lemma run_replicate_send:
  assumes "pc (sess s i) = Reply (map Call evs)" "evs \<noteq> []"
  shows "conn (sess (run e (map (\<lambda>ev. Send i False) evs) s) i) = conn (sess s i) @ evs
       \<and> pc (sess (run e (map (\<lambda>ev. Send i False) evs) s) i) = Done"
  using assms
proof (induction evs arbitrary: s)
  case Nil
  then show ?case by simp
next
  case (Cons ev evs)
  let ?t = "step e (Send i False) s"
  from Cons.prems have t: "conn (sess ?t i) = conn (sess s i) @ [ev]"
    "pc (sess ?t i) = (if evs = [] then Done else Reply (map Call evs))"
    by (simp_all add: step_def send_def pending_def continue_def)
  show ?case
  proof (cases "evs = []")
    case True
    with t show ?thesis by simp
  next
    case False
    with t Cons.IH [of ?t] show ?thesis by simp
  qed
qed

lemma do_GET_auth:
  "do_GET e hdr path = Reply (map Call send_auth_request) \<longleftrightarrow>
     \<not> check_auth (env_cfg e) (env_dec e) hdr"
  by (simp add: do_GET_def send_auth_request_def index_page_def)

text \<open>
  Claim C5. \<open>do_GET\<close> answers with \<open>send_auth_request\<close> exactly when \<open>check_auth\<close> fails,
  whatever the path: the other routes are reached only by requests that pass. The answer
  starts with status 401 and the header \<open>WWW-Authenticate: Basic realm="Pi Camera"\<close>.
  Under every schedule, a handler whose request fails validation stays outside the stream
  loop: it never waits, reads nothing from the slot, and sends a prefix of that answer, the
  whole of it when no call raises.
\<close>

theorem unauthenticated_gets_401:
  \<open>(do_GET e hdr path = Reply (map Call send_auth_request) \<longleftrightarrow>
      \<not> check_auth (env_cfg e) (env_dec e) hdr)
   \<and> send_auth_request ! 0 = SendResponse 401
   \<and> send_auth_request ! 1 = SendHeader ''WWW-Authenticate'' ''Basic realm="Pi Camera"''
   \<and> (\<not> check_auth (env_cfg e) (env_dec e) hdr \<and> pc (sess s i) = Fresh \<longrightarrow>
        (let t = run e (Request i hdr path # acts) s in
           off_stream (pc (sess t i))
           \<and> seen (sess t i) = seen (sess s i)
           \<and> wait_from (sess t i) = wait_from (sess s i)
           \<and> frame_var (sess t i) = frame_var (sess s i)
           \<and> (\<exists>k. conn (sess t i) = conn (sess s i) @ take k send_auth_request))
        \<and> (let t = run e (Request i hdr path # replicate 5 (Send i False)) s in
             conn (sess t i) = conn (sess s i) @ send_auth_request \<and> pc (sess t i) = Done))\<close>
proof -
  have ne: "send_auth_request \<noteq> []" by (simp add: send_auth_request_def)
  have len: "map (\<lambda>ev. Send i False) send_auth_request = replicate 5 (Send i False)"
    by (simp add: send_auth_request_def eval_nat_numeral)
  have main: "(let t = run e (Request i hdr path # acts) s in
           off_stream (pc (sess t i))
           \<and> seen (sess t i) = seen (sess s i)
           \<and> wait_from (sess t i) = wait_from (sess s i)
           \<and> frame_var (sess t i) = frame_var (sess s i)
           \<and> (\<exists>k. conn (sess t i) = conn (sess s i) @ take k send_auth_request))
        \<and> (let t = run e (Request i hdr path # replicate 5 (Send i False)) s in
             conn (sess t i) = conn (sess s i) @ send_auth_request \<and> pc (sess t i) = Done)"
    if na: "\<not> check_auth (env_cfg e) (env_dec e) hdr" and fr: "pc (sess s i) = Fresh"
  proof -
    let ?u = "step e (Request i hdr path) s"
    from na fr have u: "sess ?u i = (sess s i)\<lparr>pc := Reply (map Call send_auth_request)\<rparr>"
      by (simp add: step_def do_GET_auth)
    then have "replying (conn (sess s i)) send_auth_request (sess ?u i)"
      using replying_start [OF ne, of "sess s i"] by simp
    from replying_run [OF this, of e acts] u
    have r: "replying (conn (sess s i)) send_auth_request (sess (run e acts ?u) i)"
      "seen (sess (run e acts ?u) i) = seen (sess s i)"
      "wait_from (sess (run e acts ?u) i) = wait_from (sess s i)"
      "frame_var (sess (run e acts ?u) i) = frame_var (sess s i)"
      by simp_all
    from r(1) have o: "off_stream (pc (sess (run e acts ?u) i))"
      by (rule replying_off_stream)
    from r(1) have c: "\<exists>k. conn (sess (run e acts ?u) i) = conn (sess s i) @ take k send_auth_request"
      by (auto simp: replying_def)
    from u have "pc (sess ?u i) = Reply (map Call send_auth_request)" by simp
    from run_replicate_send [OF this ne, of e] u
    have d: "conn (sess (run e (replicate 5 (Send i False)) ?u) i) = conn (sess s i) @ send_auth_request"
      "pc (sess (run e (replicate 5 (Send i False)) ?u) i) = Done"
      by (simp_all add: len)
    from o r(2,3,4) c d show ?thesis by (simp add: Let_def)
  qed
  have idx: "send_auth_request ! 0 = SendResponse 401"
    \<open>send_auth_request ! 1 = SendHeader ''WWW-Authenticate'' ''Basic realm="Pi Camera"''\<close>
    by (simp_all add: send_auth_request_def)
  from do_GET_auth [of e hdr path] idx main show ?thesis by blast
qed

lemma bad_auth:
  "\<not> check_auth (env_cfg sample_env) (env_dec sample_env) (Some ''Basic YWRtaW46U2VjcmV0'')"
  "\<not> check_auth (env_cfg sample_env) (env_dec sample_env) None"
  by code_simp+

theorem unauthenticated_gets_401_witness:
  "\<not> check_auth (env_cfg sample_env) (env_dec sample_env) (Some ''Basic YWRtaW46U2VjcmV0'')
   \<and> pc (sess (run sample_env (publish ''A'') init) 1) = Fresh
   \<and> conn (sess (run sample_env
        (Request 1 (Some ''Basic YWRtaW46U2VjcmV0'') ''/stream.mjpg'' # replicate 5 (Send 1 False))
        (run sample_env (publish ''A'') init)) 1) = send_auth_request
   \<and> seen (sess (run sample_env
        (Request 1 (Some ''Basic YWRtaW46U2VjcmV0'') ''/stream.mjpg'' #
         publish ''B'' @ [Enter 1, Wait 1, Wakeup 1, Copy 1])
        (run sample_env (publish ''A'') init)) 1) = []"
proof -
  have a: "pc (sess (run sample_env (publish ''A'') init) 1) = Fresh"
    "conn (sess (run sample_env (publish ''A'') init) 1) = []"
    "seen (sess (run sample_env (publish ''A'') init) 1) = []"
    by (simp_all add: exec_simps)
  note t = unauthenticated_gets_401 [of sample_env "Some ''Basic YWRtaW46U2VjcmV0''"
      "''/stream.mjpg''" "run sample_env (publish ''A'') init" 1]
  have b: "conn (sess (run sample_env
        (Request 1 (Some ''Basic YWRtaW46U2VjcmV0'') ''/stream.mjpg'' # replicate 5 (Send 1 False))
        (run sample_env (publish ''A'') init)) 1) = send_auth_request"
    using t bad_auth(1) a by (simp add: Let_def del: run_Cons run_append)
  have c: "seen (sess (run sample_env
        (Request 1 (Some ''Basic YWRtaW46U2VjcmV0'') ''/stream.mjpg'' #
         publish ''B'' @ [Enter 1, Wait 1, Wakeup 1, Copy 1])
        (run sample_env (publish ''A'') init)) 1) = []"
    using t [of "publish ''B'' @ [Enter 1, Wait 1, Wakeup 1, Copy 1]"] bad_auth(1) a
    by (simp add: Let_def del: run_Cons run_append)
  from bad_auth(1) a(1) b c show ?thesis by blast
qed

text \<open>
  Claim C6. When a call on the connection raises inside the stream loop, the handler is at
  \<open>Closed\<close>; when it raises while the head of the stream is sent, the exception leaves
  \<open>do_GET\<close>. The failing step adds nothing to the connection and changes neither the
  slot, the lock, the writer nor any other handler. A handler that has ended is never
  changed again by any schedule: no further call on the connection, no further wait.
\<close>

theorem write_failure_closes:
  "(pc (sess s i) = Part (Call ev # st) \<longrightarrow> pc (sess (step e (Send i True) s) i) = Closed)
   \<and> (pc (sess s i) = StreamHead (Call ev # st) \<longrightarrow>
        pc (sess (step e (Send i True) s) i) = Raised OSError)
   \<and> (let t = step e (Send i True) s in
        conn (sess t i) = conn (sess s i) \<and> frame t = frame s \<and> published t = published s
        \<and> lock t = lock s \<and> writer t = writer s \<and> (\<forall>j. j \<noteq> i \<longrightarrow> sess t j = sess s j))
   \<and> (terminal (pc (sess s i)) \<longrightarrow> sess (run e acts s) i = sess s i)"
proof -
  have 1: "pc (sess (step e (Send i True) s) i) = Closed" if "pc (sess s i) = Part (Call ev # st)"
    using that by (simp add: step_def send_def pending_def raise_in_def)
  have 2: "pc (sess (step e (Send i True) s) i) = Raised OSError"
    if "pc (sess s i) = StreamHead (Call ev # st)"
    using that by (simp add: step_def send_def pending_def raise_in_def)
  have 3: "conn (sess (step e (Send i True) s) i) = conn (sess s i)"
    "frame (step e (Send i True) s) = frame s" "published (step e (Send i True) s) = published s"
    "lock (step e (Send i True) s) = lock s" "writer (step e (Send i True) s) = writer s"
    "\<forall>j. j \<noteq> i \<longrightarrow> sess (step e (Send i True) s) j = sess s j"
    by (simp_all add: step_def send_conn_fail)
  from 1 2 3 terminal_run [of s i e acts] show ?thesis by (simp add: Let_def)
qed

theorem write_failure_closes_witness:
  "pc (sess (run sample_env sending_part init) 0) =
     Part (map Call (tl (part_events ''A'')))
   \<and> pc (sess (run sample_env broken_pipe init) 0) = Closed
   \<and> sess (run sample_env (publish ''B'' @ [Enter 0, Wait 0, Wakeup 0, Copy 0, Send 0 False])
        (run sample_env broken_pipe init)) 0 = sess (run sample_env broken_pipe init) 0"
proof -
  have a: "pc (sess (run sample_env sending_part init) 0) =
     Part (map Call (tl (part_events ''A'')))"
    by (simp add: sending_part_def exec_simps)
  have s: "run sample_env broken_pipe init =
      step sample_env (Send 0 True) (run sample_env sending_part init)"
    by (simp add: broken_pipe_def)
  have b: "pc (sess (run sample_env broken_pipe init) 0) = Closed"
    using write_failure_closes [of "run sample_env sending_part init" 0
        "SendHeader ''Content-Type'' ''image/jpeg''"
        "map Call (drop 2 (part_events ''A''))" sample_env] a
    unfolding s by (simp add: part_events_def)
  have c: "sess (run sample_env (publish ''B'' @ [Enter 0, Wait 0, Wakeup 0, Copy 0, Send 0 False])
        (run sample_env broken_pipe init)) 0 = sess (run sample_env broken_pipe init) 0"
    using write_failure_closes [of "run sample_env broken_pipe init" 0 _ _ sample_env
        "publish ''B'' @ [Enter 0, Wait 0, Wakeup 0, Copy 0, Send 0 False]"] b
    by simp
  from a b c show ?thesis by blast
qed

text \<open>
  Claim C8. Two requests whose credentials both fail validation get the same answer,
  whatever their headers and paths: the calls of \<open>send_auth_request\<close>. From the same
  state and under the same schedule the two runs are equal.
\<close>

theorem failed_auth_uniform:
  "\<not> check_auth (env_cfg e) (env_dec e) h1 \<and> \<not> check_auth (env_cfg e) (env_dec e) h2 \<longrightarrow>
     do_GET e h1 p1 = Reply (map Call send_auth_request)
     \<and> do_GET e h2 p2 = do_GET e h1 p1
     \<and> run e (Request i h2 p2 # acts) s = run e (Request i h1 p1 # acts) s"
  by (simp add: do_GET_def step_def)

theorem failed_auth_uniform_witness:
  "\<not> check_auth (env_cfg sample_env) (env_dec sample_env) None
   \<and> \<not> check_auth (env_cfg sample_env) (env_dec sample_env) (Some ''Basic YWRtaW46U2VjcmV0'')
   \<and> do_GET sample_env (Some ''Basic YWRtaW46U2VjcmV0'') ''/stream.mjpg'' =
       do_GET sample_env None ''/''
   \<and> do_GET sample_env None ''/'' = Reply (map Call send_auth_request)"
  using failed_auth_uniform [of sample_env None "Some ''Basic YWRtaW46U2VjcmV0''"
      "''/''" "''/stream.mjpg''"] bad_auth
  by simp

lemma attempt_prefix: "\<exists>rest. cs = fst (attempt w cs) @ rest"
  by (induction cs) (auto split: prod.splits)

lemma attempt_all: "\<not> snd (attempt w cs) \<Longrightarrow> fst (attempt w cs) = cs"
  by (induction cs) (auto split: prod.splits if_splits)

lemma attempt_raised: "c \<in> set cs \<Longrightarrow> raises w c \<Longrightarrow> snd (attempt w cs)"
  by (induction cs) (auto split: prod.splits)

lemma attempt_made: "c \<in> set (fst (attempt w cs)) \<Longrightarrow> c \<in> set cs \<and> \<not> raises w c"
  by (induction cs) (auto split: prod.splits if_splits)

text \<open>
  Claim C9. When the construction of the camera, its configuration or the start of the
  recording raises, the process ends with a status other than 0 and \<open>StreamingServer\<close> is
  never called. Whenever \<open>StreamingServer\<close> is called, the five calls before it have
  returned, \<open>start_recording\<close> last.
\<close>

theorem startup_failure_before_listener:
  "(raises w Picamera2 \<or> raises w create_video_configuration \<or> raises w configure
      \<or> raises w start_recording \<longrightarrow>
      StreamingServer \<notin> set (fst (main w)) \<and> snd (main w) \<noteq> 0)
   \<and> (StreamingServer \<in> set (fst (main w)) \<longrightarrow>
        (\<exists>rest. fst (main w) =
           [Picamera2, create_video_configuration, configure, StreamingOutput,
            start_recording, StreamingServer] @ rest))"
proof -
  let ?init = "[Picamera2, create_video_configuration, configure, StreamingOutput,
                start_recording]"
  let ?guarded = "[StreamingServer, print 272, print 273, print 274, print 275]"
  obtain before r where a: "attempt w ?init = (before, r)" by (cases "attempt w ?init")
  have 1: "StreamingServer \<notin> set (fst (main w)) \<and> snd (main w) \<noteq> 0"
    if "raises w Picamera2 \<or> raises w create_video_configuration \<or> raises w configure
      \<or> raises w start_recording"
  proof -
    from that have "snd (attempt w ?init)"
      by (auto intro: attempt_raised)
    with a have r: "r" by simp
    have "StreamingServer \<notin> set (fst (attempt w ?init))"
      using attempt_made [of StreamingServer w ?init] by auto
    with a r show ?thesis by (simp add: main_def)
  qed
  have 2: "\<exists>rest. fst (main w) = ?init @ StreamingServer # rest"
    if s: "StreamingServer \<in> set (fst (main w))"
  proof (cases r)
    case True
    have "StreamingServer \<notin> set (fst (attempt w ?init))"
      using attempt_made [of StreamingServer w ?init] by auto
    with a True s show ?thesis by (simp add: main_def)
  next
    case False
    with a attempt_all [of w ?init] have b: "before = ?init" by simp
    show ?thesis
    proof (cases "raises w StreamingServer")
      case True
      have "StreamingServer \<notin> set (fst (attempt w [stop_recording, stop]))"
        using attempt_made [of StreamingServer w "[stop_recording, stop]"] by auto
      with a False b True s show ?thesis
        by (simp add: main_def Let_def split: prod.splits)
    next
      case no: False
      obtain made x where p: "attempt w [print 272, print 273, print 274, print 275] = (made, x)"
        by (cases "attempt w [print 272, print 273, print 274, print 275]")
      have t: "attempt w ?guarded = (StreamingServer # made, x)"
        using no p by simp
      show ?thesis
        unfolding main_def a t using False b
        by (cases x; cases "serve_end w"; simp add: Let_def split: prod.splits)
    qed
  qed
  from 1 2 show ?thesis by simp
qed

theorem startup_failure_before_listener_witness:
  "raises camera_fails start_recording
   \<and> main camera_fails =
       ([Picamera2, create_video_configuration, configure, StreamingOutput], 1)
   \<and> StreamingServer \<in> set (fst (main all_well))
   \<and> main all_well =
       ([Picamera2, create_video_configuration, configure, StreamingOutput, start_recording,
         StreamingServer, print 272, print 273, print 274, print 275, serve_forever,
         print 278, stop_recording, stop], 0)"
proof -
  have a: "raises camera_fails start_recording" by (simp add: camera_fails_def)
  have b: "main camera_fails =
       ([Picamera2, create_video_configuration, configure, StreamingOutput], 1)"
    by (simp add: main_def camera_fails_def)
  have c: "main all_well =
       ([Picamera2, create_video_configuration, configure, StreamingOutput, start_recording,
         StreamingServer, print 272, print 273, print 274, print 275, serve_forever,
         print 278, stop_recording, stop], 0)"
    by (simp add: main_def all_well_def)
  from startup_failure_before_listener [of camera_fails] a
  have "StreamingServer \<notin> set (fst (main camera_fails)) \<and> snd (main camera_fails) \<noteq> 0"
    by blast
  moreover from startup_failure_before_listener [of all_well] c
  have "StreamingServer \<in> set (fst (main all_well))" by simp
  ultimately show ?thesis using a b c by blast
qed

text \<open>
  A \<open>print\<close> of lines 272 to 275 that raises is inside the guarded block: the server is bound, the
  \<open>finally\<close> clause stops the camera, and the exception ends the process with status 1.
\<close>

lemma print_failure_exits_1:
  "main print_fails =
     ([Picamera2, create_video_configuration, configure, StreamingOutput, start_recording,
       StreamingServer, stop_recording, stop], 1)"
  by (simp add: main_def print_fails_def)

end
